theory Spec2Isabelle
  imports Main "HOL-Library.Extended_Nat"
begin

section \<open>Data model of the pathfinder visualizer\<close>

text \<open>
  The component \<^verbatim>\<open>src/components/pathfinder-visualizer.tsx\<close> keeps a grid of cells, a few
  scalar pieces of React state and one timer handle.  A cell object is identified by its
  position in the grid; a reference to a cell (an entry of \<^verbatim>\<open>unvisitedNodes\<close>, the field
  \<^verbatim>\<open>previous\<close>) is modelled by that position, and the two-dimensional array is the store the
  references point into, so that a write through one reference is seen through every other.
  \<^verbatim>\<open>Number.POSITIVE_INFINITY\<close> is the top element of \<^typ>\<open>enat\<close>; all finite distances the
  program computes are small natural numbers, which doubles represent exactly.
\<close>

datatype CellType = Empty | Wall | Start | End | Path | Visited | Current

type_synonym pos = "int \<times> int"

record Cell =
  row :: int
  col :: int
  type :: CellType
  distance :: enat
  previous :: "pos option"
  isVisited :: bool

type_synonym grid = "Cell list list"

datatype DrawMode = WallMode | StartMode | EndMode

datatype Failure = TypeError | NotStarted

record State =
  grid :: grid
  isRunning :: bool
  drawMode :: DrawMode
  startCell :: "pos option"
  endCell :: "pos option"
  pathLength :: "nat option"
  visitedCount :: nat
  animationRef :: "nat option"
  timers :: "nat list"
  nextTimer :: nat

text \<open>
  \<open>animationRef\<close> is the \<^verbatim>\<open>useRef\<close> cell holding the handle of the timeout scheduled last;
  \<open>timers\<close> is the runtime's list of timeouts that are scheduled and have neither fired nor
  been cleared, and \<open>nextTimer\<close> the handle the next \<^verbatim>\<open>setTimeout\<close> returns (handles are
  positive, so a handle in the ref passes the truthiness test of \<^verbatim>\<open>resetGrid\<close>).
\<close>

definition GRID_ROWS :: int where
  "GRID_ROWS = 25"

definition GRID_COLS :: int where
  "GRID_COLS = 50"

subsection \<open>Reading and writing cells\<close>

text \<open>
  \<open>inGrid g p\<close> says that \<^verbatim>\<open>g[row][col]\<close> is a cell: both indices hit an element of their
  array.  Everywhere else an index expression of the source yields \<^verbatim>\<open>undefined\<close>, and the
  property access that follows raises a \<^verbatim>\<open>TypeError\<close>.
\<close>

definition inGrid :: "grid \<Rightarrow> pos \<Rightarrow> bool" where
  "inGrid g p \<longleftrightarrow>
     0 \<le> fst p \<and> nat (fst p) < length g \<and> 0 \<le> snd p \<and> nat (snd p) < length (g ! nat (fst p))"

definition cellAt :: "grid \<Rightarrow> pos \<Rightarrow> Cell" where
  "cellAt g p = g ! nat (fst p) ! nat (snd p)"

definition updCell :: "grid \<Rightarrow> pos \<Rightarrow> (Cell \<Rightarrow> Cell) \<Rightarrow> grid" where
  "updCell g p f = g[nat (fst p) := (g ! nat (fst p))[nat (snd p) := f (cellAt g p)]]"

definition setType :: "grid \<Rightarrow> pos \<Rightarrow> CellType \<Rightarrow> grid" where
  "setType g p t = updCell g p (\<lambda>c. c\<lparr>type := t\<rparr>)"

subsection \<open>initializeGrid\<close>

definition newCell :: "int \<Rightarrow> int \<Rightarrow> Cell" where
  "newCell r c =
     \<lparr>row = r, col = c, type = Empty, distance = \<infinity>, previous = None, isVisited = False\<rparr>"

definition blankGrid :: grid where
  "blankGrid = map (\<lambda>r. map (\<lambda>c. newCell r c) [0..GRID_COLS - 1]) [0..GRID_ROWS - 1]"

definition defaultStart :: pos where
  "defaultStart = (12, 10)"

definition defaultEnd :: pos where
  "defaultEnd = (12, 40)"

definition initializeGrid :: "State \<Rightarrow> State" where
  "initializeGrid st =
     st\<lparr>grid := setType (setType blankGrid defaultStart Start) defaultEnd End,
        startCell := Some defaultStart,
        endCell := Some defaultEnd,
        pathLength := None,
        visitedCount := 0\<rparr>"

text \<open>The component before its first effect has run: \<^verbatim>\<open>useState\<close> defaults.\<close>

definition mountState :: State where
  "mountState =
     \<lparr>grid = [], isRunning = False, drawMode = WallMode, startCell = None, endCell = None,
      pathLength = None, visitedCount = 0, animationRef = None, timers = [], nextTimer = 1\<rparr>"

definition initialState :: State where
  "initialState = initializeGrid mountState"

subsection \<open>handleCellClick: painting\<close>

text \<open>
  The state updater copies the grid, reads \<^verbatim>\<open>newGrid[row][col]\<close> and then writes cell types.
  Any index outside the arrays makes one of the property accesses fail, the updater raises
  and no new grid is returned; the model returns \<open>Inl TypeError\<close> and no state.
\<close>

definition clearHolder :: "grid \<Rightarrow> pos option \<Rightarrow> Failure + grid" where
  "clearHolder g h =
     (case h of
        None \<Rightarrow> Inr g
      | Some p \<Rightarrow> if inGrid g p then Inr (setType g p Empty) else Inl TypeError)"

definition handleCellClick :: "State \<Rightarrow> int \<Rightarrow> int \<Rightarrow> Failure + State" where
  "handleCellClick st r c =
     (if isRunning st then Inr st
      else if \<not> (0 \<le> r \<and> nat r < length (grid st)) then Inl TypeError
      else
        (case drawMode st of
           StartMode \<Rightarrow>
             (case clearHolder (grid st) (startCell st) of
                Inl e \<Rightarrow> Inl e
              | Inr g \<Rightarrow>
                  if inGrid g (r, c)
                  then Inr (st\<lparr>grid := setType g (r, c) Start, startCell := Some (r, c)\<rparr>)
                  else Inl TypeError)
         | EndMode \<Rightarrow>
             (case clearHolder (grid st) (endCell st) of
                Inl e \<Rightarrow> Inl e
              | Inr g \<Rightarrow>
                  if inGrid g (r, c)
                  then Inr (st\<lparr>grid := setType g (r, c) End, endCell := Some (r, c)\<rparr>)
                  else Inl TypeError)
         | WallMode \<Rightarrow>
             if \<not> inGrid (grid st) (r, c) then Inl TypeError
             else if type (cellAt (grid st) (r, c)) = Empty
               then Inr (st\<lparr>grid := setType (grid st) (r, c) Wall\<rparr>)
             else if type (cellAt (grid st) (r, c)) = Wall
               then Inr (st\<lparr>grid := setType (grid st) (r, c) Empty\<rparr>)
             else Inr st))"

definition setDrawMode :: "State \<Rightarrow> DrawMode \<Rightarrow> State" where
  "setDrawMode st m = st\<lparr>drawMode := m\<rparr>"

subsection \<open>clearPath and resetGrid\<close>

definition clearCell :: "Cell \<Rightarrow> Cell" where
  "clearCell cell =
     cell\<lparr>type := (if type cell = Path \<or> type cell = Visited \<or> type cell = Current
                   then Empty else type cell),
          distance := \<infinity>,
          previous := None,
          isVisited := False\<rparr>"

definition clearPath :: "State \<Rightarrow> State" where
  "clearPath st =
     (if isRunning st then st
      else st\<lparr>grid := map (map clearCell) (grid st), pathLength := None, visitedCount := 0\<rparr>)"

definition clearTimeout :: "nat \<Rightarrow> State \<Rightarrow> State" where
  "clearTimeout h st = st\<lparr>timers := removeAll h (timers st)\<rparr>"

definition resetGrid :: "State \<Rightarrow> State" where
  "resetGrid st =
     (if isRunning st then st
      else initializeGrid (case animationRef st of None \<Rightarrow> st | Some h \<Rightarrow> clearTimeout h st))"

subsection \<open>getNeighbors\<close>

text \<open>
  The neighbours are returned as references into the grid passed in, in the order up, right,
  down, left; a direction is kept when the new coordinates pass the bounds test against the
  two constants.
\<close>

definition directions :: "(int \<times> int) list" where
  "directions = [(-1, 0), (0, 1), (1, 0), (0, -1)]"

definition inBounds :: "pos \<Rightarrow> bool" where
  "inBounds p \<longleftrightarrow> fst p \<ge> 0 \<and> fst p < GRID_ROWS \<and> snd p \<ge> 0 \<and> snd p < GRID_COLS"

definition getNeighbors :: "Cell \<Rightarrow> pos list" where
  "getNeighbors cell =
     filter inBounds (map (\<lambda>(dRow, dCol). (row cell + dRow, col cell + dCol)) directions)"

section \<open>The search: dijkstra\<close>

text \<open>
  \<open>searchCell\<close> is the body of the map that builds \<^verbatim>\<open>currentGrid\<close> from the grid the
  callback closed over: fresh cell objects with the search fields reset, distance 0 in the
  cell whose coordinates are those of \<^verbatim>\<open>startCell\<close>, and the three render types turned back
  into \<^verbatim>\<open>empty\<close>.
\<close>

definition searchCell :: "pos \<Rightarrow> Cell \<Rightarrow> Cell" where
  "searchCell s cell =
     cell\<lparr>distance := (if row cell = fst s \<and> col cell = snd s then 0 else \<infinity>),
          previous := None,
          isVisited := False,
          type := (if type cell = Path \<or> type cell = Visited \<or> type cell = Current
                   then Empty else type cell)\<rparr>"

text \<open>The positions in the order in which the loop over rows and, inside it, the loop over
  columns visit them.\<close>

definition allPositions :: "pos list" where
  "allPositions = List.product [0..GRID_ROWS - 1] [0..GRID_COLS - 1]"

datatype Event = ShowCurrent pos | ShowVisited pos | ShowPath pos

text \<open>
  The local variables of one call.  \<open>events\<close> lists, in the order the calls are made, the
  \<^verbatim>\<open>setGrid\<close> updates that change a cell's type to \<^verbatim>\<open>current\<close>, \<^verbatim>\<open>visited\<close> or \<^verbatim>\<open>path\<close>;
  \<open>finalized\<close> lists the nodes taken from \<^verbatim>\<open>unvisitedNodes\<close> and marked \<^verbatim>\<open>isVisited\<close>, as they
  were at that moment, in that order; \<open>scheduled\<close> counts the calls of \<^verbatim>\<open>setTimeout\<close>.
  The last two are observations of the run, not variables of the source.
\<close>

record Run =
  currentGrid :: grid
  unvisitedNodes :: "pos list"
  visitedCounter :: nat
  events :: "Event list"
  finalized :: "Cell list"
  scheduled :: nat

definition initialRun :: "grid \<Rightarrow> pos \<Rightarrow> Run" where
  "initialRun g s =
     (let currentGrid = map (map (searchCell s)) g
      in \<lparr>currentGrid = currentGrid,
          unvisitedNodes = filter (\<lambda>p. type (cellAt currentGrid p) \<noteq> Wall) allPositions,
          visitedCounter = 0,
          events = [],
          finalized = [],
          scheduled = 0\<rparr>)"

text \<open>
  One neighbour of the relaxation loop.  \<^verbatim>\<open>currentNode\<close> and \<^verbatim>\<open>neighbor\<close> are references, so
  both are read from the grid as it is when the neighbour is reached.
\<close>

definition relaxNeighbor :: "pos \<Rightarrow> grid \<Rightarrow> pos \<Rightarrow> grid" where
  "relaxNeighbor cur g n =
     (let neighbor = cellAt g n; currentNode = cellAt g cur
      in if isVisited neighbor \<or> type neighbor = Wall then g
         else
           let tentativeDistance = distance currentNode + 1
           in if tentativeDistance < distance neighbor
              then updCell g n (\<lambda>c. c\<lparr>distance := tentativeDistance, previous := Some cur\<rparr>)
              else g)"

text \<open>
  The walk along \<^verbatim>\<open>previous\<close> that builds \<^verbatim>\<open>path\<close> with \<^verbatim>\<open>unshift\<close>.  Nothing in the loop
  bounds it, so it is a partial function: \<open>None\<close> is the walk that never returns.
\<close>

partial_function (option) walkBack :: "grid \<Rightarrow> pos option \<Rightarrow> pos list \<Rightarrow> pos list option" where
  "walkBack g current path =
     (case current of
        None \<Rightarrow> Some path
      | Some p \<Rightarrow> walkBack g (previous (cellAt g p)) (p # path))"

declare walkBack.simps [code]

text \<open>
  One iteration of the \<^verbatim>\<open>while\<close> loop, entered with a non-empty \<^verbatim>\<open>unvisitedNodes\<close>.
  \<^verbatim>\<open>Array.prototype.sort\<close> is stable, and a comparator result \<^verbatim>\<open>NaN\<close> (infinity minus
  infinity) counts as 0, so the sort is the stable sort by the key \<open>distance\<close>.
\<close>

datatype Step = Continue Run | Break Run | Found Run "pos list" | Hang

definition step :: "pos \<Rightarrow> Run \<Rightarrow> Step" where
  "step e r =
     (let sorted = sort_key (\<lambda>p. distance (cellAt (currentGrid r) p)) (unvisitedNodes r);
          cur = hd sorted;
          currentNode = cellAt (currentGrid r) cur
      in if distance currentNode = \<infinity> then Break (r\<lparr>unvisitedNodes := tl sorted\<rparr>)
         else
           let g1 = updCell (currentGrid r) cur (\<lambda>c. c\<lparr>isVisited := True\<rparr>);
               shown = (type currentNode \<noteq> Start \<and> type currentNode \<noteq> End);
               shownAt = (row currentNode, col currentNode);
               r1 = r\<lparr>currentGrid := g1,
                      unvisitedNodes := tl sorted,
                      visitedCounter := visitedCounter r + 1,
                      events := events r @ (if shown then [ShowCurrent shownAt] else []),
                      finalized := finalized r @ [cellAt g1 cur]\<rparr>
           in if row currentNode = fst e \<and> col currentNode = snd e
              then
                (case walkBack g1 (Some cur) [] of
                   None \<Rightarrow> Hang
                 | Some path \<Rightarrow>
                     let inner = butlast (tl path)
                     in Found
                          (r1\<lparr>events := events r1 @
                                 map (\<lambda>p. ShowPath (row (cellAt g1 p), col (cellAt g1 p))) inner,
                              scheduled := scheduled r1 + length inner\<rparr>)
                          path)
              else
                Continue
                  (r1\<lparr>currentGrid := foldl (relaxNeighbor cur) g1 (getNeighbors currentNode),
                      events := events r1 @ (if shown then [ShowVisited shownAt] else []),
                      scheduled := scheduled r1 + 1\<rparr>))"

function loop :: "pos \<Rightarrow> Run \<Rightarrow> (Run \<times> pos list option) option" where
  "loop e r =
     (if unvisitedNodes r = [] then Some (r, None)
      else
        (case step e r of
           Continue r' \<Rightarrow> loop e r'
         | Break r' \<Rightarrow> Some (r', None)
         | Found r' path \<Rightarrow> Some (r', Some path)
         | Hang \<Rightarrow> None))"
  by pat_completeness auto
termination
proof (relation "measure (\<lambda>(e, r). length (unvisitedNodes r))")
  show "wf (measure (\<lambda>(e, r). length (unvisitedNodes r)))"
    by simp
next
  fix e :: pos and r r' :: Run
  assume ne: "unvisitedNodes r \<noteq> []" and st: "step e r = Continue r'"
  define sorted where "sorted = sort_key (\<lambda>p. distance (cellAt (currentGrid r) p)) (unvisitedNodes r)"
  have "length sorted = length (unvisitedNodes r)"
    by (simp add: sorted_def)
  with ne have "length (tl sorted) < length (unvisitedNodes r)"
    by (cases sorted) auto
  moreover from st have "unvisitedNodes r' = tl sorted"
    by (auto simp: step_def Let_def sorted_def split: if_splits option.splits)
  ultimately show "((e, r'), (e, r)) \<in> measure (\<lambda>(e, r). length (unvisitedNodes r))"
    by simp
qed

subsection \<open>What the run does to the component state\<close>

text \<open>
  The first \<^verbatim>\<open>setGrid\<close> of \<^verbatim>\<open>dijkstra\<close> resets the displayed grid; every later one changes the
  type of one cell.  The indices of those writes are the \<^verbatim>\<open>row\<close> and \<^verbatim>\<open>col\<close> fields of a cell,
  so each write is checked.
\<close>

definition resetView :: "grid \<Rightarrow> pos \<Rightarrow> grid" where
  "resetView g s = updCell (map (map clearCell) g) s (\<lambda>c. c\<lparr>distance := 0\<rparr>)"

fun eventPos :: "Event \<Rightarrow> pos" where
  "eventPos (ShowCurrent p) = p"
| "eventPos (ShowVisited p) = p"
| "eventPos (ShowPath p) = p"

fun eventType :: "Event \<Rightarrow> CellType" where
  "eventType (ShowCurrent p) = Current"
| "eventType (ShowVisited p) = Visited"
| "eventType (ShowPath p) = Path"

fun render :: "grid \<Rightarrow> Event list \<Rightarrow> Failure + grid" where
  "render g [] = Inr g"
| "render g (ev # evs) =
     (if inGrid g (eventPos ev) then render (setType g (eventPos ev) (eventType ev)) evs
      else Inl TypeError)"

text \<open>
  A call of \<^verbatim>\<open>dijkstra\<close> up to the point where it returns, as one transition.  The result
  \<open>None\<close> is a call that never returns.  \<open>Inl NotStarted\<close> is the return at the first line
  when a start or an end coordinate is missing; the state stays as it is.  A \<^verbatim>\<open>TypeError\<close>
  is raised by the loop that fills \<^verbatim>\<open>unvisitedNodes\<close> when the grid lacks one of the positions
  within the two constants, and by the updater that resets the displayed grid when the start
  coordinates are not a cell of it; every later read of \<^verbatim>\<open>currentGrid\<close> is at a position
  taken from \<^verbatim>\<open>unvisitedNodes\<close> or returned by \<^verbatim>\<open>getNeighbors\<close>, hence within the constants.
  Every timeout scheduled has fired when the call goes on, so the pending timeouts are those
  from before the call, and the ref holds the handle scheduled last.
\<close>

definition dijkstra :: "State \<Rightarrow> (Failure + State \<times> Run) option" where
  "dijkstra st =
     (case (startCell st, endCell st) of
        (Some s, Some e) \<Rightarrow>
          if \<not> list_all (inGrid (grid st)) allPositions \<or> \<not> inGrid (grid st) s
          then Some (Inl TypeError)
          else
            (case loop e (initialRun (grid st) s) of
               None \<Rightarrow> None
             | Some (r, found) \<Rightarrow>
                 (case render (resetView (grid st) s) (events r) of
                    Inl err \<Rightarrow> Some (Inl err)
                  | Inr view \<Rightarrow>
                      Some (Inr
                        (st\<lparr>grid := view,
                            isRunning := False,
                            pathLength := map_option (\<lambda>path. length path - 1) found,
                            visitedCount := visitedCounter r,
                            animationRef :=
                              (if scheduled r = 0 then animationRef st
                               else Some (nextTimer st + scheduled r - 1)),
                            nextTimer := nextTimer st + scheduled r\<rparr>,
                         r))))
      | _ \<Rightarrow> Some (Inl NotStarted))"

section \<open>Notions used to state the properties\<close>

text \<open>
  A well-formed grid is what \<^verbatim>\<open>initializeGrid\<close> builds and every operation keeps: the
  dimensions are the two constants and every cell carries its own indices.
\<close>

definition wfGrid :: "grid \<Rightarrow> bool" where
  "wfGrid g \<longleftrightarrow>
     length g = nat GRID_ROWS \<and>
     (\<forall>i < length g. length (g ! i) = nat GRID_COLS \<and>
        (\<forall>j < length (g ! i). row (g ! i ! j) = int i \<and> col (g ! i ! j) = int j))"

text \<open>Painting the same cell twice in the same mode; a failure of the first click ends it.\<close>

definition paintTwice :: "State \<Rightarrow> int \<Rightarrow> int \<Rightarrow> Failure + State" where
  "paintTwice st r c =
     (case handleCellClick st r c of Inl e \<Rightarrow> Inl e | Inr st' \<Rightarrow> handleCellClick st' r c)"

text \<open>The number of grid positions whose cell has a given type.\<close>

definition countType :: "CellType \<Rightarrow> grid \<Rightarrow> nat" where
  "countType t g = length (filter (\<lambda>p. type (cellAt g p) = t) allPositions)"

text \<open>
  The state in which \<^verbatim>\<open>dijkstra\<close>, started in the initial state, is suspended at its first
  \<^verbatim>\<open>await\<close>: the flag is set, the displayed grid is reset, the start node has been taken and
  its neighbours relaxed (the start node itself is not redrawn), and the first timeout is
  scheduled and stored in the ref.
\<close>

definition inFlight :: State where
  "inFlight =
     initialState\<lparr>grid := resetView (grid initialState) defaultStart,
                  isRunning := True, animationRef := Some 1, timers := [1], nextTimer := 2\<rparr>"

text \<open>The initial grid with a wall in the top left corner.\<close>

definition walled :: State where
  "walled = initialState\<lparr>grid := setType (grid initialState) (0, 0) Wall\<rparr>"

text \<open>
  The state the component holds when \<^verbatim>\<open>dijkstra\<close>, started in the initial state, has
  returned, and the position of the last cell the run redrew.
\<close>

definition afterRun :: State where
  "afterRun = (case dijkstra initialState of Some (Inr (st', r)) \<Rightarrow> st' | _ \<Rightarrow> initialState)"

definition lastDrawn :: pos where
  "lastDrawn =
     (case dijkstra initialState of
        Some (Inr (st', r)) \<Rightarrow> eventPos (last (events r))
      | _ \<Rightarrow> (0, 0))"

text \<open>
  The end cell is reachable from the start cell when a chain of \<^verbatim>\<open>getNeighbors\<close> steps leads
  from one to the other through cells that are not walls, the start cell included.
\<close>

inductive reachable :: "grid \<Rightarrow> pos \<Rightarrow> pos \<Rightarrow> bool" for g :: grid and s :: pos where
  start: "inBounds s \<Longrightarrow> type (cellAt g s) \<noteq> Wall \<Longrightarrow> reachable g s s"
| move: "reachable g s p \<Longrightarrow> q \<in> set (getNeighbors (cellAt g p)) \<Longrightarrow>
     type (cellAt g q) \<noteq> Wall \<Longrightarrow> reachable g s q"

text \<open>The Manhattan distance between two positions.\<close>

definition manhattan :: "pos \<Rightarrow> pos \<Rightarrow> nat" where
  "manhattan a b = nat (\<bar>fst a - fst b\<bar> + \<bar>snd a - snd b\<bar>)"

text \<open>
  The state after a click on the end cell (12, 40) of the initial grid in start mode: start
  and end coordinates coincide.
\<close>

definition overlapped :: State where
  "overlapped =
     initialState\<lparr>drawMode := StartMode,
        grid := setType (setType (grid initialState) defaultStart Empty) defaultEnd Start,
        startCell := Some defaultEnd\<rparr>"

text \<open>The initial grid with a wall in every row of column 20, between start and end.\<close>

definition barrier :: State where
  "barrier =
     initialState\<lparr>grid := foldl (\<lambda>g r. setType g (r, 20) Wall) (grid initialState) [0..GRID_ROWS - 1]\<rparr>"

text \<open>
  The states the component can be in when no run is in progress: the initial state, and
  what a click on a cell, a change of draw mode, a clear, a reset or a completed run make of
  such a state.  During a run the flag \<^verbatim>\<open>isRunning\<close> turns clicks, clears and resets into
  no-ops and the controls are disabled, so a run is taken as one transition.
\<close>

inductive reachableState :: "State \<Rightarrow> bool" where
  initial: "reachableState initialState"
| click: "reachableState st \<Longrightarrow> handleCellClick st r c = Inr st' \<Longrightarrow> reachableState st'"
| mode: "reachableState st \<Longrightarrow> reachableState (setDrawMode st m)"
| clear: "reachableState st \<Longrightarrow> reachableState (clearPath st)"
| reset: "reachableState st \<Longrightarrow> reachableState (resetGrid st)"
| run: "reachableState st \<Longrightarrow> dijkstra st = Some (Inr (st', r)) \<Longrightarrow> reachableState st'"

text \<open>
  What holds in all of them: the grid is well formed, start and end coordinates are set and
  inside the grid, and when they coincide the cell there is of type start or end.
\<close>

definition stateInv :: "State \<Rightarrow> bool" where
  "stateInv st \<longleftrightarrow>
     wfGrid (grid st) \<and> \<not> isRunning st \<and>
     (\<exists>s e. startCell st = Some s \<and> endCell st = Some e \<and> inBounds s \<and> inBounds e \<and>
        (s = e \<longrightarrow> type (cellAt (grid st) s) = Start \<or> type (cellAt (grid st) s) = End))"

section \<open>Notions used to reason about the search\<close>

text \<open>Marking a node visited, the write \<^verbatim>\<open>currentNode.isVisited = true\<close>.\<close>

definition markVisited :: "grid \<Rightarrow> pos \<Rightarrow> grid" where
  "markVisited g p = updCell g p (\<lambda>c. c\<lparr>isVisited := True\<rparr>)"

text \<open>
  The test of the relaxation loop for one neighbour \<open>q\<close> of the node \<open>cur\<close>, and the cell a
  position holds after the iteration that took \<open>cur\<close>.
\<close>

definition relaxed :: "grid \<Rightarrow> pos \<Rightarrow> pos \<Rightarrow> bool" where
  "relaxed g cur q \<longleftrightarrow>
     \<not> isVisited (cellAt g q) \<and> type (cellAt g q) \<noteq> Wall \<and>
     distance (cellAt g cur) + 1 < distance (cellAt g q)"

definition nextCell :: "grid \<Rightarrow> pos \<Rightarrow> pos \<Rightarrow> Cell" where
  "nextCell g cur q =
     (if q = cur then (cellAt g cur)\<lparr>isVisited := True\<rparr>
      else if q \<in> set (getNeighbors (cellAt g cur)) \<and> relaxed g cur q
        then (cellAt g q)\<lparr>distance := distance (cellAt g cur) + 1, previous := Some cur\<rparr>
      else cellAt g q)"

text \<open>
  The body of an iteration once the sort has put \<open>cur\<close> first and \<open>rest\<close> behind it, on a
  grid whose cells carry their own indices.
\<close>

definition stepWith :: "pos \<Rightarrow> Run \<Rightarrow> pos \<Rightarrow> pos list \<Rightarrow> Step" where
  "stepWith e r cur rest =
      (let currentNode = cellAt (currentGrid r) cur
       in if distance currentNode = \<infinity> then Break (r\<lparr>unvisitedNodes := rest\<rparr>)
         else
           let g1 = markVisited (currentGrid r) cur;
               shown = (type currentNode \<noteq> Start \<and> type currentNode \<noteq> End);
               r1 = r\<lparr>currentGrid := g1,
                      unvisitedNodes := rest,
                      visitedCounter := visitedCounter r + 1,
                      events := events r @ (if shown then [ShowCurrent cur] else []),
                      finalized := finalized r @ [currentNode\<lparr>isVisited := True\<rparr>]\<rparr>
           in if cur = e
              then
                (case walkBack g1 (Some cur) [] of
                   None \<Rightarrow> Hang
                 | Some path \<Rightarrow>
                     let inner = butlast (tl path)
                     in Found
                          (r1\<lparr>events := events r1 @
                                 map (\<lambda>p. ShowPath (row (cellAt g1 p), col (cellAt g1 p))) inner,
                              scheduled := scheduled r1 + length inner\<rparr>)
                          path)
              else
                Continue
                  (r1\<lparr>currentGrid := foldl (relaxNeighbor cur) g1 (getNeighbors currentNode),
                      events := events r1 @ (if shown then [ShowVisited cur] else []),
                      scheduled := scheduled r1 + 1\<rparr>))"

text \<open>
  What holds of the local variables at the head of the loop: the grid is well formed, the
  unvisited nodes are exactly the cells that are neither walls nor visited, each once, and
  every type change recorded so far is at a position of the grid.
\<close>

definition runInv :: "Run \<Rightarrow> bool" where
  "runInv r \<longleftrightarrow>
     wfGrid (currentGrid r) \<and> distinct (unvisitedNodes r) \<and>
     (\<forall>p. p \<in> set (unvisitedNodes r) \<longleftrightarrow>
        inBounds p \<and> type (cellAt (currentGrid r) p) \<noteq> Wall \<and>
        \<not> isVisited (cellAt (currentGrid r) p)) \<and>
     (\<forall>ev \<in> set (events r). inBounds (eventPos ev))"

text \<open>The relation between the states before and after an iteration that goes on,
  and before and after the iteration that takes the end node.\<close>

definition continues :: "pos \<Rightarrow> Run \<Rightarrow> pos \<Rightarrow> Run \<Rightarrow> bool" where
  "continues e r cur r' \<longleftrightarrow>
     cur \<in> set (unvisitedNodes r) \<and> inBounds cur \<and> cur \<noteq> e \<and>
     distance (cellAt (currentGrid r) cur) \<noteq> \<infinity> \<and>
     (\<forall>u \<in> set (unvisitedNodes r).
        distance (cellAt (currentGrid r) cur) \<le> distance (cellAt (currentGrid r) u)) \<and>
     set (unvisitedNodes r') = set (unvisitedNodes r) - {cur} \<and>
     distinct (unvisitedNodes r') \<and>
     wfGrid (currentGrid r') \<and>
     (\<forall>q. inBounds q \<longrightarrow> cellAt (currentGrid r') q = nextCell (currentGrid r) cur q) \<and>
     visitedCounter r' = visitedCounter r + 1 \<and>
     finalized r' = finalized r @ [(cellAt (currentGrid r) cur)\<lparr>isVisited := True\<rparr>] \<and>
     set (events r') \<subseteq> set (events r) \<union> {ShowCurrent cur, ShowVisited cur}"

definition founds :: "pos \<Rightarrow> Run \<Rightarrow> Run \<Rightarrow> pos list \<Rightarrow> bool" where
  "founds e r r' path \<longleftrightarrow>
     e \<in> set (unvisitedNodes r) \<and> inBounds e \<and>
     distance (cellAt (currentGrid r) e) \<noteq> \<infinity> \<and>
     (\<forall>u \<in> set (unvisitedNodes r).
        distance (cellAt (currentGrid r) e) \<le> distance (cellAt (currentGrid r) u)) \<and>
     walkBack (markVisited (currentGrid r) e) (Some e) [] = Some path \<and>
     currentGrid r' = markVisited (currentGrid r) e \<and>
     visitedCounter r' = visitedCounter r + 1 \<and>
     finalized r' = finalized r @ [(cellAt (currentGrid r) e)\<lparr>isVisited := True\<rparr>] \<and>
     events r' =
       events r @
       (if type (cellAt (currentGrid r) e) \<noteq> Start \<and> type (cellAt (currentGrid r) e) \<noteq> End
        then [ShowCurrent e] else []) @
       map (\<lambda>p. ShowPath (row (cellAt (markVisited (currentGrid r) e) p),
                           col (cellAt (markVisited (currentGrid r) e) p)))
         (butlast (tl path))"

text \<open>The states at the head of the loop during one run that starts with \<open>r0\<close>.\<close>

inductive runStates :: "pos \<Rightarrow> Run \<Rightarrow> Run \<Rightarrow> bool" for e :: pos and r0 :: Run where
  first: "runStates e r0 r0"
| later: "runStates e r0 r \<Longrightarrow> unvisitedNodes r \<noteq> [] \<Longrightarrow> step e r = Continue r' \<Longrightarrow>
     runStates e r0 r'"

text \<open>
  The \<^verbatim>\<open>previous\<close> references form a tree rooted at the start cell: the start cell has
  distance 0 and no predecessor, and every other cell with a finite distance points to a
  visited cell one step closer.
\<close>

definition treeInv :: "pos \<Rightarrow> grid \<Rightarrow> bool" where
  "treeInv s g \<longleftrightarrow>
     distance (cellAt g s) = 0 \<and> previous (cellAt g s) = None \<and>
     (\<forall>p. inBounds p \<and> p \<noteq> s \<and> distance (cellAt g p) \<noteq> \<infinity> \<longrightarrow>
        (\<exists>q. previous (cellAt g p) = Some q \<and> inBounds q \<and> isVisited (cellAt g q) \<and>
             distance (cellAt g p) = distance (cellAt g q) + 1))"

text \<open>
  The nodes finalized so far are in non-decreasing order of distance, and none of them is
  farther than a node still unvisited.
\<close>

definition orderInv :: "Run \<Rightarrow> bool" where
  "orderInv r \<longleftrightarrow>
     sorted (map distance (finalized r)) \<and>
     length (finalized r) = visitedCounter r \<and>
     (\<forall>c \<in> set (finalized r). \<forall>u \<in> set (unvisitedNodes r).
        distance c \<le> distance (cellAt (currentGrid r) u))"

text \<open>
  Whatever has a finite distance and is not a wall is reachable from the start cell; the
  walls of the working grid are those of the grid the run started with.
\<close>

definition reachInv :: "grid \<Rightarrow> pos \<Rightarrow> Run \<Rightarrow> bool" where
  "reachInv g s r \<longleftrightarrow>
     (\<forall>p. inBounds p \<longrightarrow>
        (type (cellAt (currentGrid r) p) = Wall \<longleftrightarrow> type (cellAt g p) = Wall)) \<and>
     (\<forall>p. inBounds p \<and> type (cellAt g p) \<noteq> Wall \<and> distance (cellAt (currentGrid r) p) \<noteq> \<infinity> \<longrightarrow>
        reachable g s p)"

text \<open>
  On a grid without walls: a distance is infinite or the Manhattan distance to the start
  cell, the neighbours of a visited node have been given a distance, and no visited node is
  farther from the start cell than an unvisited one.
\<close>

definition bfsInv :: "pos \<Rightarrow> Run \<Rightarrow> bool" where
  "bfsInv s r \<longleftrightarrow>
     treeInv s (currentGrid r) \<and>
     (\<forall>p. inBounds p \<longrightarrow> type (cellAt (currentGrid r) p) \<noteq> Wall) \<and>
     (\<forall>p. inBounds p \<longrightarrow>
        distance (cellAt (currentGrid r) p) = \<infinity> \<or>
        distance (cellAt (currentGrid r) p) = enat (manhattan s p)) \<and>
     (\<forall>v. inBounds v \<and> isVisited (cellAt (currentGrid r) v) \<longrightarrow>
        distance (cellAt (currentGrid r) v) \<noteq> \<infinity> \<and>
        (\<forall>q \<in> set (getNeighbors (cellAt (currentGrid r) v)).
           distance (cellAt (currentGrid r) q) \<noteq> \<infinity>)) \<and>
     (\<forall>v u. inBounds v \<and> isVisited (cellAt (currentGrid r) v) \<and> u \<in> set (unvisitedNodes r) \<longrightarrow>
        manhattan s v \<le> manhattan s u)"

section \<open>Cells of a grid\<close>

lemma inGrid_updCell [simp]: "inGrid (updCell g p f) q = inGrid g q"
  by (cases "nat (fst p) = nat (fst q)") (auto simp: inGrid_def updCell_def)

lemma cellAt_updCell_same: "inGrid g p \<Longrightarrow> cellAt (updCell g p f) p = f (cellAt g p)"
  by (simp add: inGrid_def updCell_def cellAt_def)

lemma cellAt_updCell_other:
  assumes "0 \<le> fst p" "0 \<le> snd p" "0 \<le> fst q" "0 \<le> snd q" "p \<noteq> q"
  shows "cellAt (updCell g p f) q = cellAt g q"
proof (cases "fst p = fst q")
  case True
  with assms have "nat (snd p) \<noteq> nat (snd q)"
    by (auto simp: prod_eq_iff)
  then show ?thesis
    by (cases "nat (fst q) < length g") (simp_all add: updCell_def cellAt_def True list_update_beyond)
next
  case False
  with assms have "nat (fst p) \<noteq> nat (fst q)"
    by auto
  then show ?thesis
    by (simp add: updCell_def cellAt_def)
qed

lemma cellAt_updCell:
  "inGrid g p \<Longrightarrow> inGrid g q \<Longrightarrow>
     cellAt (updCell g p f) q = (if q = p then f (cellAt g p) else cellAt g q)"
  using cellAt_updCell_same [of g p f] cellAt_updCell_other [of p q g f]
  by (auto simp: inGrid_def)

lemma length_updCell [simp]: "length (updCell g p f) = length g"
  by (simp add: updCell_def)

lemma updCell_updCell:
  "inGrid g p \<Longrightarrow> updCell (updCell g p f) p h = updCell g p (\<lambda>c. h (f c))"
  by (simp add: updCell_def cellAt_def inGrid_def)

lemma updCell_id: "f (cellAt g p) = cellAt g p \<Longrightarrow> updCell g p f = g"
  by (simp add: updCell_def cellAt_def)

lemma setType_setType: "inGrid g p \<Longrightarrow> setType (setType g p t) p t' = setType g p t'"
  by (simp add: setType_def updCell_updCell)

lemma setType_same: "type (cellAt g p) = t \<Longrightarrow> setType g p t = g"
  by (simp add: setType_def updCell_id)

lemma inGrid_setType [simp]: "inGrid (setType g p t) q = inGrid g q"
  by (simp add: setType_def)

lemma length_setType [simp]: "length (setType g p t) = length g"
  by (simp add: setType_def)

lemma cellAt_setType:
  "inGrid g p \<Longrightarrow> inGrid g q \<Longrightarrow>
     cellAt (setType g p t) q = (if q = p then (cellAt g p)\<lparr>type := t\<rparr> else cellAt g q)"
  by (simp add: setType_def cellAt_updCell)

lemma inGrid_row: "inGrid g (r, c) \<Longrightarrow> 0 \<le> r \<and> nat r < length g"
  by (simp add: inGrid_def)

lemma wfGrid_updCell:
  assumes wf: "wfGrid g" and f: "\<And>c. row (f c) = row c \<and> col (f c) = col c"
  shows "wfGrid (updCell g p f)"
proof (cases "nat (fst p) < length g")
  case True
  define old where "old = g ! nat (fst p)"
  define new where "new = old[nat (snd p) := f (old ! nat (snd p))]"
  have len: "length new = length old"
    by (simp add: new_def)
  have same: "row (new ! j) = row (old ! j) \<and> col (new ! j) = col (old ! j)"
    if "j < length old" for j
    using that f by (cases "j = nat (snd p)") (simp_all add: new_def)
  have upd: "updCell g p f = g[nat (fst p) := new]"
    by (simp add: updCell_def cellAt_def new_def old_def)
  have nth: "g[nat (fst p) := new] ! i = (if i = nat (fst p) then new else g ! i)"
    if "i < length g" for i
    using that True by (simp add: nth_list_update)
  show ?thesis
    unfolding upd wfGrid_def
    using wf len same by (auto simp: nth wfGrid_def old_def)
next
  case False
  then show ?thesis
    using assms by (simp add: updCell_def list_update_beyond)
qed

lemma wfGrid_setType: "wfGrid g \<Longrightarrow> wfGrid (setType g p t)"
  by (simp add: setType_def wfGrid_updCell)

lemma inGrid_wf: "wfGrid g \<Longrightarrow> inGrid g p = inBounds p"
  by (auto simp: wfGrid_def inGrid_def inBounds_def)

lemma fields_wf: "wfGrid g \<Longrightarrow> inBounds p \<Longrightarrow> row (cellAt g p) = fst p \<and> col (cellAt g p) = snd p"
  by (auto simp: wfGrid_def cellAt_def inBounds_def)

lemma wf_setTypes: "wfGrid g \<Longrightarrow> inBounds p \<Longrightarrow> inBounds q \<Longrightarrow>
   cellAt (setType g p t) q = (if q = p then (cellAt g p)\<lparr>type := t\<rparr> else cellAt g q)"
  by (simp add: cellAt_setType inGrid_wf)

lemma set_allPositions: "set allPositions = {p. inBounds p}"
  by (auto simp: allPositions_def inBounds_def)

lemma distinct_allPositions: "distinct allPositions"
  by (simp add: allPositions_def distinct_product)

lemma countType_card:
  "countType t g = card {p. inBounds p \<and> type (cellAt g p) = t}"
proof -
  have "{x. type (cellAt g x) = t} \<inter> set allPositions = {p. inBounds p \<and> type (cellAt g p) = t}"
    by (auto simp: set_allPositions)
  then show ?thesis
    by (simp add: countType_def distinct_length_filter distinct_allPositions)
qed

section \<open>The initial state\<close>

lemma wf_blank: "wfGrid blankGrid"
  by (auto simp: wfGrid_def blankGrid_def newCell_def)

lemma cellAt_blank: "inBounds p \<Longrightarrow> cellAt blankGrid p = newCell (fst p) (snd p)"
  by (auto simp: blankGrid_def cellAt_def inBounds_def)

lemma wf_initial: "wfGrid (grid initialState)"
  by (simp add: initialState_def initializeGrid_def wfGrid_setType wf_blank)

lemma inBounds_defaults: "inBounds defaultStart" "inBounds defaultEnd"
  by (simp_all add: inBounds_def defaultStart_def defaultEnd_def GRID_ROWS_def GRID_COLS_def)

lemma inBounds_origin: "inBounds (0, 0)"
  by (simp add: inBounds_def GRID_ROWS_def GRID_COLS_def)

lemma type_initial:
  assumes "inBounds p"
  shows "type (cellAt (grid initialState) p) =
           (if p = defaultEnd then End else if p = defaultStart then Start else Empty)"
  using assms inBounds_defaults
  by (simp add: initialState_def initializeGrid_def wf_setTypes wfGrid_setType wf_blank
        cellAt_blank newCell_def)

lemma initial_fields:
  "isRunning initialState = False" "drawMode initialState = WallMode"
  "startCell initialState = Some defaultStart" "endCell initialState = Some defaultEnd"
  by (simp_all add: initialState_def initializeGrid_def mountState_def)

section \<open>Painting, clearing and resetting\<close>

lemma wall_click:
  assumes "\<not> isRunning st" and "drawMode st = WallMode" and "inGrid (grid st) (r, c)"
  shows "handleCellClick st r c =
     Inr (if type (cellAt (grid st) (r, c)) = Empty then st\<lparr>grid := setType (grid st) (r, c) Wall\<rparr>
          else if type (cellAt (grid st) (r, c)) = Wall then st\<lparr>grid := setType (grid st) (r, c) Empty\<rparr>
          else st)"
  using assms by (simp add: handleCellClick_def inGrid_row)

lemma wall_twice: "drawMode st = WallMode \<Longrightarrow> inGrid (grid st) (r, c) \<Longrightarrow> paintTwice st r c = Inr st"
  by (auto simp: paintTwice_def handleCellClick_def inGrid_row setType_setType cellAt_setType setType_same)

lemma start_twice: "drawMode st = StartMode \<Longrightarrow> paintTwice st r c = handleCellClick st r c"
  by (auto simp: paintTwice_def handleCellClick_def clearHolder_def setType_setType
           split: sum.splits option.splits if_splits)

lemma end_twice: "drawMode st = EndMode \<Longrightarrow> paintTwice st r c = handleCellClick st r c"
  by (auto simp: paintTwice_def handleCellClick_def clearHolder_def setType_setType
           split: sum.splits option.splits if_splits)

lemma out_of_grid: "\<not> inGrid (grid st) (r, c) \<Longrightarrow> handleCellClick st r c = (if isRunning st then Inr st else Inl TypeError)"
  by (auto simp: handleCellClick_def clearHolder_def split: sum.splits option.splits if_splits DrawMode.splits)

lemma click_elsewhere:
  assumes "handleCellClick st r c = Inr st'" "inGrid (grid st) q" "q \<noteq> (r, c)"
    "startCell st \<noteq> Some q" "endCell st \<noteq> Some q"
  shows "cellAt (grid st') q = cellAt (grid st) q"
proof (cases "isRunning st")
  case True
  with assms(1) show ?thesis
    by (simp add: handleCellClick_def)
next
  case False
  show ?thesis
  proof (cases "drawMode st")
    case WallMode
    with False assms show ?thesis
      by (auto simp: handleCellClick_def cellAt_setType split: if_splits)
  next
    case StartMode
    with False assms show ?thesis
      by (auto simp: handleCellClick_def clearHolder_def cellAt_setType
          split: if_splits option.splits)
  next
    case EndMode
    with False assms show ?thesis
      by (auto simp: handleCellClick_def clearHolder_def cellAt_setType
          split: if_splits option.splits)
  qed
qed

lemma set_getNeighbors:
  "set (getNeighbors cell) =
     {n. inBounds n \<and>
         n \<in> {(row cell - 1, col cell), (row cell, col cell + 1),
               (row cell + 1, col cell), (row cell, col cell - 1)}}"
  by (auto simp: getNeighbors_def directions_def)

lemma unit_step:
  "\<bar>a - r\<bar> + \<bar>b - c\<bar> = (1::int) \<longleftrightarrow>
     (a, b) \<in> {(r - 1, c), (r, c + 1), (r + 1, c), (r, c - 1)}"
  by auto

lemma nbrs: "n \<in> set (getNeighbors cell) \<longleftrightarrow> inBounds n \<and> \<bar>fst n - row cell\<bar> + \<bar>snd n - col cell\<bar> = 1"
  unfolding set_getNeighbors using unit_step [of "fst n" "row cell" "snd n" "col cell"]
  by simp

lemma start_over_end_state:
  "handleCellClick (setDrawMode initialState StartMode) 12 40 =
     Inr (initialState\<lparr>drawMode := StartMode,
            grid := setType (setType (grid initialState) defaultStart Empty) defaultEnd Start,
            startCell := Some defaultEnd\<rparr>)"
proof -
  have "inGrid (grid initialState) defaultStart" "inGrid (grid initialState) defaultEnd"
    by (simp_all add: inGrid_wf wf_initial inBounds_defaults)
  then show ?thesis
    by (simp add: handleCellClick_def setDrawMode_def initial_fields clearHolder_def)
       (simp add: defaultEnd_def inGrid_def)
qed

lemma start_over_end_types:
  assumes "inBounds p"
  shows "type (cellAt (setType (setType (grid initialState) defaultStart Empty) defaultEnd Start) p) =
           (if p = defaultEnd then Start else Empty)"
  using assms inBounds_defaults
  by (simp add: wf_setTypes wfGrid_setType wf_initial type_initial)

text \<open>
  C3, as the code has it.  While a run is in progress \<^verbatim>\<open>clearPath\<close> and \<^verbatim>\<open>resetGrid\<close> return
  at their first line: the state, with its pending timeout, is left as it is and the run goes
  on.
\<close>

theorem clear_reset_rejected_while_running:
  "isRunning st \<Longrightarrow> clearPath st = st \<and> resetGrid st = st"
  by (simp add: clearPath_def resetGrid_def)

theorem clear_reset_rejected_witness:
  "isRunning inFlight \<and> clearPath inFlight = inFlight \<and> resetGrid inFlight = inFlight"
  using clear_reset_rejected_while_running [of inFlight] by (simp add: inFlight_def)

text \<open>
  C3 as stated fails: in the state where the run is suspended at its first \<^verbatim>\<open>await\<close>, the
  timeout is still pending and the flag still set after either request.
\<close>

theorem clear_does_not_cancel:
  "isRunning inFlight \<and> timers (clearPath inFlight) = [1] \<and> isRunning (clearPath inFlight) \<and>
   timers (resetGrid inFlight) = [1] \<and> isRunning (resetGrid inFlight)"
  by (simp add: inFlight_def clearPath_def resetGrid_def)

text \<open>
  C4 at the input where it fails: in the initial state, with the draw mode set to start, a
  click on the end cell (12, 40) leaves one cell of type start, no cell of type end, and
  \<^verbatim>\<open>endCell\<close> still pointing at the clicked cell.
\<close>

theorem start_painted_over_end:
  "map_sum id (\<lambda>st. (countType Start (grid st), countType End (grid st), endCell st))
     (handleCellClick (setDrawMode initialState StartMode) 12 40) = Inr (1, 0, Some (12, 40))"
proof -
  let ?g = "setType (setType (grid initialState) defaultStart Empty) defaultEnd Start"
  have starts: "{p. inBounds p \<and> type (cellAt ?g p) = Start} = {defaultEnd}"
    using inBounds_defaults by (auto simp: start_over_end_types split: if_splits)
  have ends: "{p. inBounds p \<and> type (cellAt ?g p) = End} = {}"
    by (auto simp: start_over_end_types)
  have "countType Start ?g = 1" "countType End ?g = 0"
    by (simp_all add: countType_card starts ends)
  then show ?thesis
    by (simp add: start_over_end_state initial_fields) (simp add: defaultEnd_def)
qed

text \<open>
  C6, as the code has it: when no run is in progress, a click in wall mode on a cell of the
  grid turns a cell of type empty into a wall and a wall into a cell of type empty; it leaves
  the whole state as it is when the type of the cell is anything else, that is start, end, or
  path, visited or current as a run has drawn it; it changes no other cell, so that every cell
  of type start or end stays what it is.
\<close>

theorem wall_mode_toggles:
  assumes "\<not> isRunning st" and "drawMode st = WallMode" and "inGrid (grid st) (r, c)"
  shows "\<exists>st'. handleCellClick st r c = Inr st' \<and>
     (type (cellAt (grid st) (r, c)) = Empty \<longrightarrow> type (cellAt (grid st') (r, c)) = Wall) \<and>
     (type (cellAt (grid st) (r, c)) = Wall \<longrightarrow> type (cellAt (grid st') (r, c)) = Empty) \<and>
     (type (cellAt (grid st) (r, c)) \<in> {Start, End, Path, Visited, Current} \<longrightarrow> st' = st) \<and>
     (\<forall>q. inGrid (grid st) q \<and> q \<noteq> (r, c) \<longrightarrow> cellAt (grid st') q = cellAt (grid st) q) \<and>
     (\<forall>q. inGrid (grid st) q \<and> type (cellAt (grid st) q) \<in> {Start, End} \<longrightarrow>
        cellAt (grid st') q = cellAt (grid st) q)"
  using assms by (auto simp: wall_click cellAt_setType)

text \<open>
  C7, as the code has it: painting twice is the same as painting once in start mode and in
  end mode; in wall mode the second click on a cell of the grid undoes the first, so that
  painting twice gives back the state before the first click.
\<close>

theorem paint_twice:
  "(drawMode st = StartMode \<or> drawMode st = EndMode \<longrightarrow>
      paintTwice st r c = handleCellClick st r c) \<and>
   (drawMode st = WallMode \<and> inGrid (grid st) (r, c) \<longrightarrow> paintTwice st r c = Inr st)"
  using start_twice end_twice wall_twice by blast

theorem paint_twice_witness:
  "drawMode (setDrawMode initialState StartMode) = StartMode \<and>
   paintTwice (setDrawMode initialState StartMode) 5 5 =
     handleCellClick (setDrawMode initialState StartMode) 5 5 \<and>
   drawMode initialState = WallMode \<and> inGrid (grid initialState) (0, 0) \<and>
   paintTwice initialState 0 0 = Inr initialState"
  using paint_twice [of "setDrawMode initialState StartMode" 5 5] paint_twice [of initialState 0 0]
    inBounds_origin
  by (simp add: setDrawMode_def initial_fields inGrid_wf wf_initial)

text \<open>
  C7 as stated fails in wall mode: in the initial state, two clicks on the empty cell (0, 0)
  do not give the state one click gives.
\<close>

theorem wall_paint_not_idempotent:
  "paintTwice initialState 0 0 \<noteq> handleCellClick initialState 0 0"
proof -
  define st1 where "st1 = initialState\<lparr>grid := setType (grid initialState) (0, 0) Wall\<rparr>"
  have inG: "inGrid (grid initialState) (0, 0)"
    by (simp add: inGrid_wf wf_initial inBounds_origin)
  have empty: "type (cellAt (grid initialState) (0, 0)) = Empty"
    by (simp add: type_initial inBounds_origin defaultStart_def defaultEnd_def)
  have once: "handleCellClick initialState 0 0 = Inr st1"
    using inG empty by (simp add: wall_click initial_fields st1_def)
  have wall: "type (cellAt (grid st1) (0, 0)) = Wall"
    using inG by (simp add: st1_def cellAt_setType)
  have "\<not> isRunning st1" "drawMode st1 = WallMode" "inGrid (grid st1) (0, 0)"
    using inG by (simp_all add: st1_def initial_fields)
  then have "handleCellClick st1 0 0 = Inr (st1\<lparr>grid := setType (grid st1) (0, 0) Empty\<rparr>)"
    using wall by (simp add: wall_click)
  moreover have "type (cellAt (setType (grid st1) (0, 0) Empty) (0, 0)) = Empty"
    using inG by (simp add: st1_def cellAt_setType)
  ultimately have "paintTwice initialState 0 0 \<noteq> Inr st1"
    using wall by (auto simp: paintTwice_def once dest!: arg_cong [where f = "\<lambda>st. type (cellAt (grid st) (0, 0))"])
  with once show ?thesis
    by simp
qed

text \<open>
  C8, as the code has it: \<^verbatim>\<open>handleCellClick\<close> has no test of its coordinates. When no run is
  in progress, a click at coordinates that are not a cell of the grid makes the updater raise
  a \<^verbatim>\<open>TypeError\<close>, and there is no new state; during a run the click is ignored. A click
  that does give a new state has changed at most the cell at the coordinates given and the
  cells that held start and end. Every neighbour returned by \<^verbatim>\<open>getNeighbors\<close> lies within
  the two constants and exactly one step from the cell.
\<close>

theorem out_of_bounds_filtered:
  "(\<not> inGrid (grid st) (r, c) \<longrightarrow>
      handleCellClick st r c = (if isRunning st then Inr st else Inl TypeError)) \<and>
   (\<forall>st' q. handleCellClick st r c = Inr st' \<and> inGrid (grid st) q \<and> q \<noteq> (r, c) \<and>
      startCell st \<noteq> Some q \<and> endCell st \<noteq> Some q \<longrightarrow>
      cellAt (grid st') q = cellAt (grid st) q) \<and>
   (\<forall>n \<in> set (getNeighbors cell).
      0 \<le> fst n \<and> fst n < GRID_ROWS \<and> 0 \<le> snd n \<and> snd n < GRID_COLS \<and>
      \<bar>fst n - row cell\<bar> + \<bar>snd n - col cell\<bar> = 1)"
proof (intro conjI allI impI ballI)
  assume "\<not> inGrid (grid st) (r, c)"
  then show "handleCellClick st r c = (if isRunning st then Inr st else Inl TypeError)"
    by (rule out_of_grid)
next
  fix st' q
  assume "handleCellClick st r c = Inr st' \<and> inGrid (grid st) q \<and> q \<noteq> (r, c) \<and>
      startCell st \<noteq> Some q \<and> endCell st \<noteq> Some q"
  then show "cellAt (grid st') q = cellAt (grid st) q"
    using click_elsewhere [of st r c st' q] by simp
next
  fix n assume n: "n \<in> set (getNeighbors cell)"
  then have "inBounds n" and "\<bar>fst n - row cell\<bar> + \<bar>snd n - col cell\<bar> = 1"
    by (simp_all add: nbrs)
  then show "0 \<le> fst n" "fst n < GRID_ROWS" "0 \<le> snd n" "snd n < GRID_COLS"
    "\<bar>fst n - row cell\<bar> + \<bar>snd n - col cell\<bar> = 1"
    by (simp_all add: inBounds_def)
qed

theorem out_of_bounds_filtered_witness:
  "\<not> inGrid (grid initialState) (12, 50) \<and> handleCellClick initialState 12 50 = Inl TypeError \<and>
   (\<exists>st'. handleCellClick initialState 0 0 = Inr st' \<and>
      cellAt (grid st') (0, 49) = cellAt (grid initialState) (0, 49) \<and>
      cellAt (grid st') (24, 0) = cellAt (grid initialState) (24, 0)) \<and>
   getNeighbors (newCell 0 0) = [(0, 1), (1, 0)] \<and>
   (0 \<le> fst (0::int, 1::int) \<and> fst (0::int, 1::int) < GRID_ROWS \<and>
    0 \<le> snd (0::int, 1::int) \<and> snd (0::int, 1::int) < GRID_COLS \<and>
    \<bar>fst (0::int, 1::int) - row (newCell 0 0)\<bar> + \<bar>snd (0::int, 1::int) - col (newCell 0 0)\<bar> = 1)"
proof -
  have out: "\<not> inGrid (grid initialState) (12, 50)"
    by (simp add: inGrid_wf wf_initial inBounds_def GRID_COLS_def)
  have inG: "inGrid (grid initialState) (0, 0)" "inGrid (grid initialState) (0, 49)"
    "inGrid (grid initialState) (24, 0)"
    by (simp_all add: inGrid_wf wf_initial inBounds_def GRID_ROWS_def GRID_COLS_def)
  have nb: "getNeighbors (newCell 0 0) = [(0, 1), (1, 0)]"
    by (simp add: getNeighbors_def directions_def newCell_def inBounds_def GRID_ROWS_def GRID_COLS_def)
  obtain st' where st': "handleCellClick initialState 0 0 = Inr st'"
    using inG(1) by (simp add: wall_click initial_fields)
  have "cellAt (grid st') (0, 49) = cellAt (grid initialState) (0, 49)"
    "cellAt (grid st') (24, 0) = cellAt (grid initialState) (24, 0)"
    using out_of_bounds_filtered [of initialState 0 0 "newCell 0 0"] st' inG
    by (simp_all add: initial_fields defaultStart_def defaultEnd_def)
  with st' out nb show ?thesis
    using out_of_bounds_filtered [of initialState 12 50 "newCell 0 0"]
    by (simp add: initial_fields)
qed

text \<open>
  C8 as stated fails for painting: in the initial state a click at (12, 50), one column past
  the last, is not turned down with the state left as it was; the updater raises a
  \<^verbatim>\<open>TypeError\<close>.
\<close>

theorem click_outside_raises:
  "\<not> isRunning initialState \<and> \<not> inGrid (grid initialState) (12, 50) \<and>
   handleCellClick initialState 12 50 = Inl TypeError \<and>
   handleCellClick initialState 12 50 \<noteq> Inr initialState"
proof -
  have "\<not> inGrid (grid initialState) (12, 50)"
    by (simp add: inGrid_wf wf_initial inBounds_def GRID_COLS_def)
  then show ?thesis
    by (simp add: out_of_grid initial_fields)
qed

section \<open>One iteration of the search\<close>

declare loop.simps [simp del]

lemma wf_cellAt_updCell:
  "wfGrid g \<Longrightarrow> inBounds p \<Longrightarrow> inBounds q \<Longrightarrow>
     cellAt (updCell g p f) q = (if q = p then f (cellAt g p) else cellAt g q)"
  by (simp add: cellAt_updCell inGrid_wf)

lemma relaxNeighbor_cellAt:
  assumes "wfGrid g" "inBounds n" "inBounds q"
  shows "cellAt (relaxNeighbor cur g n) q =
     (if q = n \<and> relaxed g cur n
      then (cellAt g n)\<lparr>distance := distance (cellAt g cur) + 1, previous := Some cur\<rparr>
      else cellAt g q)"
  using assms by (auto simp: relaxNeighbor_def relaxed_def Let_def wf_cellAt_updCell)

lemma relaxNeighbor_wf: "wfGrid g \<Longrightarrow> wfGrid (relaxNeighbor cur g n)"
  by (simp add: relaxNeighbor_def Let_def wfGrid_updCell)

lemma relax_all:
  assumes "wfGrid g" "inBounds cur" "isVisited (cellAt g cur)" "\<forall>n \<in> set ns. inBounds n"
  shows "wfGrid (foldl (relaxNeighbor cur) g ns) \<and>
    (\<forall>q. inBounds q \<longrightarrow>
       cellAt (foldl (relaxNeighbor cur) g ns) q =
         (if q \<in> set ns \<and> relaxed g cur q
          then (cellAt g q)\<lparr>distance := distance (cellAt g cur) + 1, previous := Some cur\<rparr>
          else cellAt g q))"
  using assms
proof (induction ns arbitrary: g)
  case Nil
  then show ?case by simp
next
  case (Cons n ns)
  let ?g = "relaxNeighbor cur g n"
  have n: "inBounds n" and ns: "\<forall>n \<in> set ns. inBounds n"
    using Cons.prems by simp_all
  have wf: "wfGrid ?g"
    using Cons.prems by (simp add: relaxNeighbor_wf)
  have at: "cellAt ?g q =
     (if q = n \<and> relaxed g cur n
      then (cellAt g n)\<lparr>distance := distance (cellAt g cur) + 1, previous := Some cur\<rparr>
      else cellAt g q)" if "inBounds q" for q
    using that Cons.prems n by (simp add: relaxNeighbor_cellAt)
  have cur: "cellAt ?g cur = cellAt g cur"
    using Cons.prems by (auto simp: at relaxed_def)
  then have vis: "isVisited (cellAt ?g cur)"
    using Cons.prems by simp
  note ih = Cons.IH [OF wf Cons.prems(2) vis ns]
  have ih_at: "cellAt (foldl (relaxNeighbor cur) ?g ns) q =
         (if q \<in> set ns \<and> relaxed ?g cur q
          then (cellAt ?g q)\<lparr>distance := distance (cellAt ?g cur) + 1, previous := Some cur\<rparr>
          else cellAt ?g q)" if "inBounds q" for q
    using ih that by blast
  show ?case
  proof (intro conjI allI impI)
    show "wfGrid (foldl (relaxNeighbor cur) g (n # ns))"
      using ih by simp
  next
    fix q assume q: "inBounds q"
    have rel: "relaxed ?g cur q \<longleftrightarrow> relaxed g cur q \<and> \<not> (q = n)"
      using q by (auto simp: relaxed_def at cur)
    show "cellAt (foldl (relaxNeighbor cur) g (n # ns)) q =
         (if q \<in> set (n # ns) \<and> relaxed g cur q
          then (cellAt g q)\<lparr>distance := distance (cellAt g cur) + 1, previous := Some cur\<rparr>
          else cellAt g q)"
      using at [OF n] by (auto simp: ih_at [OF q] rel at [OF q] cur)
  qed
qed

lemma sort_key_head:
  assumes "xs \<noteq> []" "distinct xs"
  obtains x rest where "sort_key f xs = x # rest" "x \<in> set xs" "set rest = set xs - {x}"
    "distinct rest" "\<forall>y \<in> set xs. f x \<le> f y"
proof -
  from assms(1) obtain x rest where eq: "sort_key f xs = x # rest"
    by (cases "sort_key f xs") (auto dest: arg_cong [where f = length])
  have set: "set (x # rest) = set xs"
    by (metis eq set_sort)
  have dist: "distinct (x # rest)"
    by (metis eq assms(2) distinct_sort)
  have "sorted (map f (x # rest))"
    by (metis eq sorted_sort_key)
  then have "\<forall>y \<in> set (x # rest). f x \<le> f y"
    by auto
  moreover have "set rest = set xs - {x}"
    using set dist by auto
  ultimately show ?thesis
    using that [of x rest] eq set dist by auto
qed

lemma markVisited_wf: "wfGrid g \<Longrightarrow> wfGrid (markVisited g p)"
  by (simp add: markVisited_def wfGrid_updCell)

lemma markVisited_cellAt:
  "wfGrid g \<Longrightarrow> inBounds p \<Longrightarrow> inBounds q \<Longrightarrow>
     cellAt (markVisited g p) q = (if q = p then (cellAt g p)\<lparr>isVisited := True\<rparr> else cellAt g q)"
  by (simp add: markVisited_def wf_cellAt_updCell)

lemma getNeighbors_inBounds: "n \<in> set (getNeighbors c) \<Longrightarrow> inBounds n"
  by (simp add: set_getNeighbors)

lemma relax_marked:
  assumes "wfGrid g" "inBounds cur" "inBounds q"
  shows "cellAt (foldl (relaxNeighbor cur) (markVisited g cur) (getNeighbors (cellAt g cur))) q =
           nextCell g cur q"
    and "wfGrid (foldl (relaxNeighbor cur) (markVisited g cur) (getNeighbors (cellAt g cur)))"
proof -
  let ?g = "markVisited g cur"
  have wf: "wfGrid ?g"
    using assms by (simp add: markVisited_wf)
  have vis: "isVisited (cellAt ?g cur)"
    using assms by (simp add: markVisited_cellAt)
  have nb: "\<forall>n \<in> set (getNeighbors (cellAt g cur)). inBounds n"
    by (simp add: getNeighbors_inBounds)
  note all = relax_all [OF wf assms(2) vis nb]
  show "wfGrid (foldl (relaxNeighbor cur) ?g (getNeighbors (cellAt g cur)))"
    using all by simp
  have "relaxed ?g cur q \<longleftrightarrow> q \<noteq> cur \<and> relaxed g cur q"
    using assms by (auto simp: relaxed_def markVisited_cellAt)
  moreover have "cellAt (foldl (relaxNeighbor cur) ?g (getNeighbors (cellAt g cur))) q =
         (if q \<in> set (getNeighbors (cellAt g cur)) \<and> relaxed ?g cur q
          then (cellAt ?g q)\<lparr>distance := distance (cellAt ?g cur) + 1, previous := Some cur\<rparr>
          else cellAt ?g q)"
    using all assms(3) by blast
  ultimately show "cellAt (foldl (relaxNeighbor cur) ?g (getNeighbors (cellAt g cur))) q =
           nextCell g cur q"
    using assms by (auto simp: nextCell_def markVisited_cellAt)
qed

lemma runInv_unvisited:
  "runInv r \<Longrightarrow>
     p \<in> set (unvisitedNodes r) \<longleftrightarrow>
       inBounds p \<and> type (cellAt (currentGrid r) p) \<noteq> Wall \<and>
       \<not> isVisited (cellAt (currentGrid r) p)"
  unfolding runInv_def by blast

lemma runInv_wf: "runInv r \<Longrightarrow> wfGrid (currentGrid r)"
  unfolding runInv_def by blast

lemma runInv_distinct: "runInv r \<Longrightarrow> distinct (unvisitedNodes r)"
  unfolding runInv_def by blast

lemma runInv_events: "runInv r \<Longrightarrow> ev \<in> set (events r) \<Longrightarrow> inBounds (eventPos ev)"
  unfolding runInv_def by blast

lemma step_unfold:
  assumes inv: "runInv r" and ne: "unvisitedNodes r \<noteq> []"
  obtains cur rest where
    "cur \<in> set (unvisitedNodes r)" "inBounds cur"
    "set rest = set (unvisitedNodes r) - {cur}" "distinct rest"
    "\<forall>u \<in> set (unvisitedNodes r).
        distance (cellAt (currentGrid r) cur) \<le> distance (cellAt (currentGrid r) u)"
    "step e r = stepWith e r cur rest"
proof -
  from inv have wf: "wfGrid (currentGrid r)" and dist: "distinct (unvisitedNodes r)"
    by (simp_all add: runInv_wf runInv_distinct)
  obtain cur rest where
    eq: "sort_key (\<lambda>p. distance (cellAt (currentGrid r) p)) (unvisitedNodes r) = cur # rest"
    and mem: "cur \<in> set (unvisitedNodes r)"
    and rest: "set rest = set (unvisitedNodes r) - {cur}" "distinct rest"
    and least: "\<forall>u \<in> set (unvisitedNodes r).
        distance (cellAt (currentGrid r) cur) \<le> distance (cellAt (currentGrid r) u)"
    using sort_key_head [OF ne dist, of "\<lambda>p. distance (cellAt (currentGrid r) p)"] by metis
  from inv mem have inb: "inBounds cur"
    by (simp add: runInv_unvisited)
  have fields: "(row (cellAt (currentGrid r) cur), col (cellAt (currentGrid r) cur)) = cur"
    using fields_wf [OF wf inb] by simp
  have same: "(row (cellAt (currentGrid r) cur) = fst e \<and> col (cellAt (currentGrid r) cur) = snd e)
      \<longleftrightarrow> cur = e"
    using fields_wf [OF wf inb] by (auto simp: prod_eq_iff)
  have at: "cellAt (markVisited (currentGrid r) cur) cur = (cellAt (currentGrid r) cur)\<lparr>isVisited := True\<rparr>"
    using wf inb by (simp add: markVisited_cellAt)
  have "step e r = stepWith e r cur rest"
    unfolding step_def stepWith_def eq Let_def list.sel same fields markVisited_def [symmetric] at
    by (rule refl)
  then show ?thesis
    using that [of cur rest] mem inb rest least by blast
qed

lemma nextCell_type [simp]: "type (nextCell g cur q) = type (cellAt g q)"
  by (simp add: nextCell_def)

lemma nextCell_isVisited [simp]:
  "isVisited (nextCell g cur q) \<longleftrightarrow> q = cur \<or> isVisited (cellAt g q)"
  by (simp add: nextCell_def)

lemma nextCell_distance:
  "distance (nextCell g cur q) =
     (if q \<noteq> cur \<and> q \<in> set (getNeighbors (cellAt g cur)) \<and> relaxed g cur q
      then distance (cellAt g cur) + 1 else distance (cellAt g q))"
  by (simp add: nextCell_def)

lemma nextCell_previous:
  "previous (nextCell g cur q) =
     (if q \<noteq> cur \<and> q \<in> set (getNeighbors (cellAt g cur)) \<and> relaxed g cur q
      then Some cur else previous (cellAt g q))"
  by (simp add: nextCell_def)

lemma stepWith_Continue:
  assumes "stepWith e r cur rest = Continue r'"
  shows "distance (cellAt (currentGrid r) cur) \<noteq> \<infinity>" "cur \<noteq> e"
    "unvisitedNodes r' = rest"
    "currentGrid r' = foldl (relaxNeighbor cur) (markVisited (currentGrid r) cur)
        (getNeighbors (cellAt (currentGrid r) cur))"
    "visitedCounter r' = visitedCounter r + 1"
    "finalized r' = finalized r @ [(cellAt (currentGrid r) cur)\<lparr>isVisited := True\<rparr>]"
    "events r' = events r @
       (if type (cellAt (currentGrid r) cur) \<noteq> Start \<and> type (cellAt (currentGrid r) cur) \<noteq> End
        then [ShowCurrent cur, ShowVisited cur] else [])"
  using assms by (auto simp: stepWith_def Let_def split: if_splits option.splits)

lemma stepWith_Found:
  assumes "stepWith e r cur rest = Found r' path"
  shows "distance (cellAt (currentGrid r) cur) \<noteq> \<infinity>" "cur = e"
    "walkBack (markVisited (currentGrid r) cur) (Some cur) [] = Some path"
    "currentGrid r' = markVisited (currentGrid r) cur"
    "visitedCounter r' = visitedCounter r + 1"
    "finalized r' = finalized r @ [(cellAt (currentGrid r) cur)\<lparr>isVisited := True\<rparr>]"
    "events r' =
       events r @
       (if type (cellAt (currentGrid r) cur) \<noteq> Start \<and> type (cellAt (currentGrid r) cur) \<noteq> End
        then [ShowCurrent cur] else []) @
       map (\<lambda>p. ShowPath (row (cellAt (markVisited (currentGrid r) cur) p),
                           col (cellAt (markVisited (currentGrid r) cur) p)))
         (butlast (tl path))"
  using assms by (auto simp: stepWith_def Let_def split: if_splits option.splits)

lemma stepWith_Break:
  assumes "stepWith e r cur rest = Break r'"
  shows "distance (cellAt (currentGrid r) cur) = \<infinity>" "r' = r\<lparr>unvisitedNodes := rest\<rparr>"
  using assms by (auto simp: stepWith_def Let_def split: if_splits option.splits)

lemma stepWith_Hang:
  assumes "stepWith e r cur rest = Hang"
  shows "distance (cellAt (currentGrid r) cur) \<noteq> \<infinity>" "cur = e"
    "walkBack (markVisited (currentGrid r) cur) (Some cur) [] = None"
  using assms by (auto simp: stepWith_def Let_def split: if_splits option.splits)

lemma continuesD:
  assumes "continues e r cur r'"
  shows "cur \<in> set (unvisitedNodes r)" "inBounds cur" "cur \<noteq> e"
    "distance (cellAt (currentGrid r) cur) \<noteq> \<infinity>"
    "u \<in> set (unvisitedNodes r) \<Longrightarrow>
        distance (cellAt (currentGrid r) cur) \<le> distance (cellAt (currentGrid r) u)"
    "set (unvisitedNodes r') = set (unvisitedNodes r) - {cur}"
    "distinct (unvisitedNodes r')"
    "wfGrid (currentGrid r')"
    "inBounds q \<Longrightarrow> cellAt (currentGrid r') q = nextCell (currentGrid r) cur q"
    "visitedCounter r' = visitedCounter r + 1"
    "finalized r' = finalized r @ [(cellAt (currentGrid r) cur)\<lparr>isVisited := True\<rparr>]"
    "set (events r') \<subseteq> set (events r) \<union> {ShowCurrent cur, ShowVisited cur}"
  using assms unfolding continues_def by (auto simp del: split_paired_All)

lemma step_Continue:
  assumes inv: "runInv r" and ne: "unvisitedNodes r \<noteq> []" and st: "step e r = Continue r'"
  shows "\<exists>cur. continues e r cur r'"
proof -
  obtain cur rest where c:
    "cur \<in> set (unvisitedNodes r)" "inBounds cur"
    "set rest = set (unvisitedNodes r) - {cur}" "distinct rest"
    "\<forall>u \<in> set (unvisitedNodes r).
        distance (cellAt (currentGrid r) cur) \<le> distance (cellAt (currentGrid r) u)"
    and eq: "step e r = stepWith e r cur rest"
    by (rule step_unfold [OF inv ne, of e])
  note s = stepWith_Continue [OF st [unfolded eq]]
  have wf: "wfGrid (currentGrid r)"
    using inv by (rule runInv_wf)
  have ev: "set (events r') \<subseteq> set (events r) \<union> {ShowCurrent cur, ShowVisited cur}"
    unfolding s(7) by auto
  have cells: "\<forall>q. inBounds q \<longrightarrow> cellAt (currentGrid r') q = nextCell (currentGrid r) cur q"
    unfolding s(4) using relax_marked(1) [OF wf c(2)] by blast
  have wf': "wfGrid (currentGrid r')"
    unfolding s(4) using relax_marked(2) [OF wf c(2) c(2)] .
  have "continues e r cur r'"
    unfolding continues_def using c s(1,2,3,5,6) ev cells wf' by simp
  then show ?thesis ..
qed

lemma foundsD:
  assumes "founds e r r' path"
  shows "e \<in> set (unvisitedNodes r)" "inBounds e"
    "distance (cellAt (currentGrid r) e) \<noteq> \<infinity>"
    "u \<in> set (unvisitedNodes r) \<Longrightarrow>
        distance (cellAt (currentGrid r) e) \<le> distance (cellAt (currentGrid r) u)"
    "walkBack (markVisited (currentGrid r) e) (Some e) [] = Some path"
    "currentGrid r' = markVisited (currentGrid r) e"
    "visitedCounter r' = visitedCounter r + 1"
    "finalized r' = finalized r @ [(cellAt (currentGrid r) e)\<lparr>isVisited := True\<rparr>]"
    "events r' =
       events r @
       (if type (cellAt (currentGrid r) e) \<noteq> Start \<and> type (cellAt (currentGrid r) e) \<noteq> End
        then [ShowCurrent e] else []) @
       map (\<lambda>p. ShowPath (row (cellAt (markVisited (currentGrid r) e) p),
                           col (cellAt (markVisited (currentGrid r) e) p)))
         (butlast (tl path))"
  using assms unfolding founds_def by simp_all

lemma step_Found:
  assumes inv: "runInv r" and ne: "unvisitedNodes r \<noteq> []" and st: "step e r = Found r' path"
  shows "founds e r r' path"
proof -
  obtain cur rest where c:
    "cur \<in> set (unvisitedNodes r)" "inBounds cur"
    "set rest = set (unvisitedNodes r) - {cur}" "distinct rest"
    "\<forall>u \<in> set (unvisitedNodes r).
        distance (cellAt (currentGrid r) cur) \<le> distance (cellAt (currentGrid r) u)"
    and eq: "step e r = stepWith e r cur rest"
    by (rule step_unfold [OF inv ne, of e])
  note s = stepWith_Found [OF st [unfolded eq]]
  show ?thesis
    unfolding founds_def using c s(1) s(3-)[unfolded s(2)] unfolding s(2) by simp
qed

lemma step_Break:
  assumes inv: "runInv r" and ne: "unvisitedNodes r \<noteq> []" and st: "step e r = Break r'"
  shows "(\<forall>u \<in> set (unvisitedNodes r). distance (cellAt (currentGrid r) u) = \<infinity>) \<and>
    currentGrid r' = currentGrid r \<and> visitedCounter r' = visitedCounter r \<and>
    finalized r' = finalized r \<and> events r' = events r \<and>
    set (unvisitedNodes r') \<subseteq> set (unvisitedNodes r)"
proof -
  obtain cur rest where c:
    "cur \<in> set (unvisitedNodes r)" "inBounds cur"
    "set rest = set (unvisitedNodes r) - {cur}" "distinct rest"
    "\<forall>u \<in> set (unvisitedNodes r).
        distance (cellAt (currentGrid r) cur) \<le> distance (cellAt (currentGrid r) u)"
    and eq: "step e r = stepWith e r cur rest"
    by (rule step_unfold [OF inv ne, of e])
  note s = stepWith_Break [OF st [unfolded eq]]
  have "\<forall>u \<in> set (unvisitedNodes r). distance (cellAt (currentGrid r) u) = \<infinity>"
    using c(5) s(1) by simp
  then show ?thesis
    using c(3) s(2) by auto
qed

lemma step_Hang:
  assumes inv: "runInv r" and ne: "unvisitedNodes r \<noteq> []" and st: "step e r = Hang"
  shows "inBounds e \<and> distance (cellAt (currentGrid r) e) \<noteq> \<infinity> \<and>
    walkBack (markVisited (currentGrid r) e) (Some e) [] = None"
proof -
  obtain cur rest where c: "inBounds cur" and eq: "step e r = stepWith e r cur rest"
    by (rule step_unfold [OF inv ne, of e])
  note s = stepWith_Hang [OF st [unfolded eq]]
  show ?thesis
    using c s by simp
qed

lemma runInv_continues:
  assumes inv: "runInv r" and c: "continues e r cur r'"
  shows "runInv r'"
  unfolding runInv_def
proof (intro conjI allI ballI)
  note d = continuesD [OF c]
  show "wfGrid (currentGrid r')" "distinct (unvisitedNodes r')"
    by (fact d)+
  fix p
  show "p \<in> set (unvisitedNodes r') \<longleftrightarrow>
        inBounds p \<and> type (cellAt (currentGrid r') p) \<noteq> Wall \<and>
        \<not> isVisited (cellAt (currentGrid r') p)"
  proof (cases "inBounds p")
    case True
    have "p \<in> set (unvisitedNodes r') \<longleftrightarrow> p \<in> set (unvisitedNodes r) \<and> p \<noteq> cur"
      by (simp add: d(6))
    then show ?thesis
      using True runInv_unvisited [OF inv, of p] by (simp add: d(9) [OF True]; blast)
  next
    case False
    then show ?thesis
      using runInv_unvisited [OF inv, of p] by (simp add: d(6))
  qed
next
  note d = continuesD [OF c]
  fix ev
  assume "ev \<in> set (events r')"
  then have "ev \<in> set (events r) \<or> ev = ShowCurrent cur \<or> ev = ShowVisited cur"
    using d(12) by blast
  then show "inBounds (eventPos ev)"
    using d(2) runInv_events [OF inv, of ev] by auto
qed

section \<open>The loop as a whole\<close>

lemma runStates_trans:
  assumes "runStates e r1 r2" "runStates e r0 r1"
  shows "runStates e r0 r2"
  using assms by (induction rule: runStates.induct) (auto intro: runStates.intros)

lemma runStates_runInv:
  assumes "runStates e r0 r" "runInv r0"
  shows "runInv r"
  using assms
proof (induction rule: runStates.induct)
  case first
  then show ?case by simp
next
  case (later r r')
  then have "runInv r" by simp
  with later.hyps show ?case
    using step_Continue [of r e r'] runInv_continues by blast
qed

lemma loop_cases:
  "\<exists>rf. runStates e r rf \<and>
     (if unvisitedNodes rf = [] then loop e r = Some (rf, None)
      else
        (case step e rf of
           Continue r' \<Rightarrow> False
         | Break r' \<Rightarrow> loop e r = Some (r', None)
         | Found r' path \<Rightarrow> loop e r = Some (r', Some path)
         | Hang \<Rightarrow> loop e r = None))"
proof (induction e r rule: loop.induct)
  case (1 e r)
  show ?case
  proof (cases "unvisitedNodes r = []")
    case True
    then have "loop e r = Some (r, None)"
      by (subst loop.simps) simp
    with True show ?thesis
      using runStates.first [of e r] by (intro exI [of _ r]) simp
  next
    case ne: False
    show ?thesis
    proof (cases "step e r")
      case (Continue r')
      with ne have eq: "loop e r = loop e r'"
        by (subst loop.simps) simp
      from "1.IH" [OF ne Continue] obtain rf where rf: "runStates e r' rf"
        "if unvisitedNodes rf = [] then loop e r' = Some (rf, None)
         else
          (case step e rf of
             Continue r'' \<Rightarrow> False
           | Break r'' \<Rightarrow> loop e r' = Some (r'', None)
           | Found r'' path \<Rightarrow> loop e r' = Some (r'', Some path)
           | Hang \<Rightarrow> loop e r' = None)"
        by blast
      have "runStates e r r'"
        using runStates.later [OF runStates.first ne Continue] .
      with rf(1) have "runStates e r rf"
        by (rule runStates_trans)
      with rf(2) show ?thesis
        unfolding eq by blast
    next
      case (Break r')
      with ne have "loop e r = Some (r', None)"
        by (subst loop.simps) simp
      with ne Break show ?thesis
        using runStates.first [of e r] by (intro exI [of _ r]) simp
    next
      case (Found r' path)
      with ne have "loop e r = Some (r', Some path)"
        by (subst loop.simps) simp
      with ne Found show ?thesis
        using runStates.first [of e r] by (intro exI [of _ r]) simp
    next
      case Hang
      with ne have "loop e r = None"
        by (subst loop.simps) simp
      with ne Hang show ?thesis
        using runStates.first [of e r] by (intro exI [of _ r]) simp
    qed
  qed
qed

lemma treeInv_markVisited:
  assumes t: "treeInv s g" and wf: "wfGrid g" and c: "inBounds c" and s: "inBounds s"
  shows "treeInv s (markVisited g c)"
proof -
  have at: "cellAt (markVisited g c) q = (if q = c then (cellAt g c)\<lparr>isVisited := True\<rparr> else cellAt g q)"
    if "inBounds q" for q
    using that wf c by (simp add: markVisited_cellAt)
  have d: "distance (cellAt (markVisited g c) q) = distance (cellAt g q)"
    and p: "previous (cellAt (markVisited g c) q) = previous (cellAt g q)"
    and v: "isVisited (cellAt g q) \<Longrightarrow> isVisited (cellAt (markVisited g c) q)"
    if "inBounds q" for q
    using that by (simp_all add: at)
  show ?thesis
    unfolding treeInv_def
  proof (intro conjI allI impI)
    show "distance (cellAt (markVisited g c) s) = 0" "previous (cellAt (markVisited g c) s) = None"
      using t s by (simp_all add: d p treeInv_def)
  next
    fix x assume x: "inBounds x \<and> x \<noteq> s \<and> distance (cellAt (markVisited g c) x) \<noteq> \<infinity>"
    then have "inBounds x \<and> x \<noteq> s \<and> distance (cellAt g x) \<noteq> \<infinity>"
      using d [of x] by auto
    with t obtain q where q: "previous (cellAt g x) = Some q" "inBounds q" "isVisited (cellAt g q)"
      "distance (cellAt g x) = distance (cellAt g q) + 1"
      unfolding treeInv_def by blast
    with x show "\<exists>q. previous (cellAt (markVisited g c) x) = Some q \<and> inBounds q \<and>
        isVisited (cellAt (markVisited g c) q) \<and>
        distance (cellAt (markVisited g c) x) = distance (cellAt (markVisited g c) q) + 1"
      by (intro exI [of _ q]) (simp add: d p v)
  qed
qed

lemma treeInv_continues:
  assumes t: "treeInv s (currentGrid r)" and c: "continues e r cur r'" and s: "inBounds s"
  shows "treeInv s (currentGrid r')"
proof -
  note d = continuesD [OF c]
  let ?g = "currentGrid r"
  have s0: "distance (cellAt ?g s) = 0" "previous (cellAt ?g s) = None"
    using t by (simp_all add: treeInv_def)
  have nrel: "\<not> relaxed ?g cur s"
    by (simp add: relaxed_def s0)
  show ?thesis
    unfolding treeInv_def
  proof (intro conjI allI impI)
    show "distance (cellAt (currentGrid r') s) = 0" "previous (cellAt (currentGrid r') s) = None"
      using s0 nrel by (simp_all add: d(9) [OF s] nextCell_distance nextCell_previous)
  next
    fix x assume x: "inBounds x \<and> x \<noteq> s \<and> distance (cellAt (currentGrid r') x) \<noteq> \<infinity>"
    then have inb: "inBounds x" and xs: "x \<noteq> s" by simp_all
    show "\<exists>q. previous (cellAt (currentGrid r') x) = Some q \<and> inBounds q \<and>
        isVisited (cellAt (currentGrid r') q) \<and>
        distance (cellAt (currentGrid r') x) = distance (cellAt (currentGrid r') q) + 1"
    proof (cases "x \<noteq> cur \<and> x \<in> set (getNeighbors (cellAt ?g cur)) \<and> relaxed ?g cur x")
      case True
      then show ?thesis
        using d(2) by (intro exI [of _ cur])
          (simp add: d(9) [OF inb] d(9) [OF d(2)] nextCell_distance nextCell_previous)
    next
      case False
      then have same: "distance (cellAt (currentGrid r') x) = distance (cellAt ?g x)"
        "previous (cellAt (currentGrid r') x) = previous (cellAt ?g x)"
        by (auto simp: d(9) [OF inb] nextCell_distance nextCell_previous)
      with x t obtain q where q: "previous (cellAt ?g x) = Some q" "inBounds q"
        "isVisited (cellAt ?g q)" "distance (cellAt ?g x) = distance (cellAt ?g q) + 1"
        unfolding treeInv_def by (metis (no_types, lifting))
      have "\<not> relaxed ?g cur q"
        using q(3) by (simp add: relaxed_def)
      then have "distance (cellAt (currentGrid r') q) = distance (cellAt ?g q)"
        "isVisited (cellAt (currentGrid r') q)"
        using q(3) by (simp_all add: d(9) [OF q(2)] nextCell_distance)
      with q same show ?thesis
        by (intro exI [of _ q]) simp
    qed
  qed
qed

lemma walkBack_tree:
  assumes t: "treeInv s g" and s: "inBounds s"
  shows "inBounds p \<Longrightarrow> distance (cellAt g p) = enat n \<Longrightarrow>
    \<exists>path. walkBack g (Some p) acc = Some (path @ acc) \<and> length path = Suc n \<and>
       hd path = s \<and> last path = p \<and> (\<forall>x \<in> set path. inBounds x)"
proof (induction n arbitrary: p acc)
  case 0
  have "p = s"
  proof (rule ccontr)
    assume "p \<noteq> s"
    with 0 t obtain q where "distance (cellAt g p) = distance (cellAt g q) + 1"
      unfolding treeInv_def by (metis enat.distinct(2))
    with 0 show False
      by (simp add: zero_enat_def [symmetric])
  qed
  moreover have "walkBack g (Some s) acc = Some ([s] @ acc)"
    using t by (subst walkBack.simps, subst walkBack.simps) (simp add: treeInv_def)
  ultimately show ?case
    using s by (intro exI [of _ "[s]"]) simp
next
  case (Suc n)
  have "p \<noteq> s"
    using Suc.prems t by (auto simp: treeInv_def zero_enat_def)
  with Suc.prems t obtain q where q: "previous (cellAt g p) = Some q" "inBounds q"
    "distance (cellAt g p) = distance (cellAt g q) + 1"
    unfolding treeInv_def by (metis enat.distinct(2))
  have "distance (cellAt g q) = enat n"
    using q(3) Suc.prems(2) by (cases "distance (cellAt g q)") (simp_all add: one_enat_def)
  from Suc.IH [OF q(2) this, of "p # acc"] obtain path where path:
    "walkBack g (Some q) (p # acc) = Some (path @ p # acc)" "length path = Suc n"
    "hd path = s" "last path = p \<or> True" "\<forall>x \<in> set path. inBounds x"
    by auto
  have "walkBack g (Some p) acc = Some ((path @ [p]) @ acc)"
    by (subst walkBack.simps) (simp add: q(1) path(1))
  moreover have "hd (path @ [p]) = s"
    using path(2,3) by (cases path) simp_all
  ultimately show ?case
    using path(2,5) Suc.prems(1) by (intro exI [of _ "path @ [p]"]) simp
qed

lemma runStates_invariant:
  assumes "runStates e r0 r" and "runInv r0" and "I r0"
    and "\<And>r cur r'. runInv r \<Longrightarrow> I r \<Longrightarrow> continues e r cur r' \<Longrightarrow> I r'"
  shows "I r"
  using assms(1)
proof (induction rule: runStates.induct)
  case first
  show ?case by (fact assms(3))
next
  case (later r r')
  have inv: "runInv r"
    using later.hyps(1) assms(2) by (rule runStates_runInv)
  from step_Continue [OF inv later.hyps(2,3)] obtain cur where "continues e r cur r'" ..
  with inv later.IH show ?case
    by (rule assms(4))
qed

lemma cellAt_map: "inGrid g p \<Longrightarrow> cellAt (map (map f) g) p = f (cellAt g p)"
  by (simp add: inGrid_def cellAt_def)

lemma wfGrid_map:
  assumes "wfGrid g" "\<And>c. row (f c) = row c \<and> col (f c) = col c"
  shows "wfGrid (map (map f) g)"
  using assms unfolding wfGrid_def by simp

lemma wf_cellAt_map: "wfGrid g \<Longrightarrow> inBounds p \<Longrightarrow> cellAt (map (map f) g) p = f (cellAt g p)"
  by (simp add: cellAt_map inGrid_wf)

lemma searchCell_fields [simp]:
  "row (searchCell s c) = row c" "col (searchCell s c) = col c"
  "previous (searchCell s c) = None" "isVisited (searchCell s c) = False"
  "type (searchCell s c) = Wall \<longleftrightarrow> type c = Wall"
  "distance (searchCell s c) = (if row c = fst s \<and> col c = snd s then 0 else \<infinity>)"
  by (simp_all add: searchCell_def)

lemma initialRun_fields:
  "currentGrid (initialRun g s) = map (map (searchCell s)) g"
  "unvisitedNodes (initialRun g s) =
     filter (\<lambda>p. type (cellAt (map (map (searchCell s)) g) p) \<noteq> Wall) allPositions"
  "visitedCounter (initialRun g s) = 0" "events (initialRun g s) = []"
  "finalized (initialRun g s) = []"
  by (simp_all add: initialRun_def Let_def)

lemma initialRun_cellAt:
  assumes "wfGrid g" "inBounds p"
  shows "cellAt (currentGrid (initialRun g s)) p = searchCell s (cellAt g p)"
  using assms by (simp add: initialRun_fields wf_cellAt_map)

lemma initialRun_distance:
  assumes "wfGrid g" "inBounds p"
  shows "distance (cellAt (currentGrid (initialRun g s)) p) = (if p = s then 0 else \<infinity>)"
  using assms fields_wf [OF assms] by (auto simp: initialRun_cellAt prod_eq_iff)

lemma runInv_initialRun:
  assumes wf: "wfGrid g"
  shows "runInv (initialRun g s)"
  unfolding runInv_def
proof (intro conjI allI ballI)
  show "wfGrid (currentGrid (initialRun g s))"
    using wf by (simp add: initialRun_fields wfGrid_map)
  show "distinct (unvisitedNodes (initialRun g s))"
    by (simp add: initialRun_fields distinct_allPositions)
  fix p
  show "p \<in> set (unvisitedNodes (initialRun g s)) \<longleftrightarrow>
      inBounds p \<and> type (cellAt (currentGrid (initialRun g s)) p) \<noteq> Wall \<and>
      \<not> isVisited (cellAt (currentGrid (initialRun g s)) p)"
    using wf by (cases "inBounds p") (simp_all add: initialRun_fields set_allPositions wf_cellAt_map)
next
  fix ev assume "ev \<in> set (events (initialRun g s))"
  then show "inBounds (eventPos ev)"
    by (simp add: initialRun_fields)
qed

lemma treeInv_initialRun:
  assumes wf: "wfGrid g" and s: "inBounds s"
  shows "treeInv s (currentGrid (initialRun g s))"
  unfolding treeInv_def
  using wf s by (auto simp: initialRun_distance) (simp add: initialRun_cellAt)

lemma runStates_treeInv:
  assumes "runStates e r0 r" "runInv r0" "treeInv s (currentGrid r0)" "inBounds s"
  shows "treeInv s (currentGrid r)"
  using assms(1,2,3)
  by (rule runStates_invariant [where I = "\<lambda>r. treeInv s (currentGrid r)"])
     (rule treeInv_continues [OF _ _ assms(4)])

lemma no_Hang:
  assumes inv: "runInv r" and t: "treeInv s (currentGrid r)" and s: "inBounds s"
    and ne: "unvisitedNodes r \<noteq> []"
  shows "step e r \<noteq> Hang"
proof
  assume "step e r = Hang"
  from step_Hang [OF inv ne this] have e: "inBounds e"
    "distance (cellAt (currentGrid r) e) \<noteq> \<infinity>"
    "walkBack (markVisited (currentGrid r) e) (Some e) [] = None"
    by simp_all
  have t': "treeInv s (markVisited (currentGrid r) e)"
    using t runInv_wf [OF inv] e(1) s by (rule treeInv_markVisited)
  from e(2) obtain n where "distance (cellAt (currentGrid r) e) = enat n"
    by auto
  then have "distance (cellAt (markVisited (currentGrid r) e) e) = enat n"
    using runInv_wf [OF inv] e(1) by (simp add: markVisited_cellAt)
  from walkBack_tree [OF t' s e(1) this, of "[]"] e(3) show False
    by simp
qed

lemma founds_path:
  assumes inv: "runInv r" and t: "treeInv s (currentGrid r)" and s: "inBounds s"
    and f: "founds e r r' path"
  shows "enat (length path - 1) = distance (cellAt (currentGrid r) e)"
    "hd path = s" "last path = e" "\<forall>x \<in> set path. inBounds x" "path \<noteq> []"
proof -
  note d = foundsD [OF f]
  have t': "treeInv s (markVisited (currentGrid r) e)"
    using t runInv_wf [OF inv] d(2) s by (rule treeInv_markVisited)
  from d(3) obtain n where n: "distance (cellAt (currentGrid r) e) = enat n"
    by auto
  then have "distance (cellAt (markVisited (currentGrid r) e) e) = enat n"
    using runInv_wf [OF inv] d(2) by (simp add: markVisited_cellAt)
  from walkBack_tree [OF t' s d(2) this, of "[]"] d(5)
  have p: "length path = Suc n" "hd path = s" "last path = e" "\<forall>x \<in> set path. inBounds x"
    by auto
  show "enat (length path - 1) = distance (cellAt (currentGrid r) e)"
    using p(1) n by simp
  show "hd path = s" "last path = e" "\<forall>x \<in> set path. inBounds x"
    by (fact p)+
  show "path \<noteq> []"
    using p(1) by auto
qed

lemma loop_outcome:
  assumes inv: "runInv r0" and t: "treeInv s (currentGrid r0)" and s: "inBounds s"
  obtains (none) rf r' where "runStates e r0 rf" "loop e r0 = Some (r', None)"
      "events r' = events rf" "finalized r' = finalized rf"
      "visitedCounter r' = visitedCounter rf" "currentGrid r' = currentGrid rf"
      "\<forall>u \<in> set (unvisitedNodes rf). distance (cellAt (currentGrid rf) u) = \<infinity>"
      "set (unvisitedNodes r') \<subseteq> set (unvisitedNodes rf)"
    | (found) rf r' path where "runStates e r0 rf" "loop e r0 = Some (r', Some path)"
      "founds e rf r' path"
proof -
  from loop_cases [of e r0] obtain rf where rf: "runStates e r0 rf"
    and res: "if unvisitedNodes rf = [] then loop e r0 = Some (rf, None)
      else
        (case step e rf of
           Continue r' \<Rightarrow> False
         | Break r' \<Rightarrow> loop e r0 = Some (r', None)
         | Found r' path \<Rightarrow> loop e r0 = Some (r', Some path)
         | Hang \<Rightarrow> loop e r0 = None)"
    by blast
  have inv': "runInv rf"
    using rf inv by (rule runStates_runInv)
  have t': "treeInv s (currentGrid rf)"
    using rf inv t s by (rule runStates_treeInv)
  show ?thesis
  proof (cases "unvisitedNodes rf = []")
    case True
    with res have "loop e r0 = Some (rf, None)" by simp
    with rf True show ?thesis
      by (intro none [of rf rf]) simp_all
  next
    case ne: False
    show ?thesis
    proof (cases "step e rf")
      case (Continue r')
      with res ne show ?thesis by simp
    next
      case (Break r')
      with res ne have "loop e r0 = Some (r', None)" by simp
      with rf step_Break [OF inv' ne Break] show ?thesis
        by (intro none [of rf r']) simp_all
    next
      case (Found r' path)
      with res ne have "loop e r0 = Some (r', Some path)" by simp
      with rf step_Found [OF inv' ne Found] show ?thesis
        by (intro found [of rf r' path])
    next
      case Hang
      with no_Hang [OF inv' t' s ne, of e] show ?thesis by simp
    qed
  qed
qed

section \<open>The run and the displayed grid\<close>

lemma render_ok:
  assumes "wfGrid g" "\<forall>ev \<in> set evs. inBounds (eventPos ev)"
  shows "\<exists>view. render g evs = Inr view \<and> wfGrid view"
  using assms
proof (induction evs arbitrary: g)
  case Nil
  then show ?case by simp
next
  case (Cons ev evs)
  then have "wfGrid (setType g (eventPos ev) (eventType ev))"
    by (simp add: wfGrid_setType)
  from Cons.IH [OF this] Cons.prems show ?case
    by (simp add: inGrid_wf)
qed

lemma clearCell_fields [simp]: "row (clearCell c) = row c" "col (clearCell c) = col c"
  by (simp_all add: clearCell_def)

lemma wfGrid_resetView: "wfGrid g \<Longrightarrow> wfGrid (resetView g s)"
  by (simp add: resetView_def wfGrid_updCell wfGrid_map)

lemma covers_wf: "wfGrid g \<Longrightarrow> list_all (inGrid g) allPositions"
  by (simp add: list_all_iff set_allPositions inGrid_wf)

lemma loop_events:
  assumes inv: "runInv r0" and t: "treeInv s (currentGrid r0)" and s: "inBounds s"
    and l: "loop e r0 = Some (r, found)"
  shows "\<forall>ev \<in> set (events r). inBounds (eventPos ev)"
  using inv t s
proof (cases rule: loop_outcome [where e = e])
  case (none rf r')
  then have "runInv rf"
    using inv runStates_runInv by blast
  with none l show ?thesis
    using runInv_events [of rf] by simp
next
  case (found rf r' path)
  have inv': "runInv rf"
    using found(1) inv by (rule runStates_runInv)
  have t': "treeInv s (currentGrid rf)"
    using found(1) inv t s by (rule runStates_treeInv)
  note d = foundsD [OF found(3)]
  note p = founds_path [OF inv' t' s found(3)]
  have wf: "wfGrid (markVisited (currentGrid rf) e)"
    using runInv_wf [OF inv'] by (rule markVisited_wf)
  have inner: "inBounds x" if "x \<in> set (butlast (tl path))" for x
  proof -
    from that have "x \<in> set (tl path)"
      by (rule in_set_butlastD)
    then have "x \<in> set path"
      by (cases path) simp_all
    with p(4) show ?thesis
      by blast
  qed
  have "inBounds (eventPos ev)" if "ev \<in> set (events r')" for ev
    using that runInv_events [OF inv', of ev] d(2) inner fields_wf [OF wf]
    unfolding d(9) by (auto split: if_splits)
  with found l show ?thesis
    by simp
qed

lemma dijkstra_total:
  assumes wf: "wfGrid (grid st)" and st: "startCell st = Some s" "endCell st = Some e"
    and s: "inBounds s"
  obtains st' r found where
    "dijkstra st = Some (Inr (st', r))" "loop e (initialRun (grid st) s) = Some (r, found)"
    "pathLength st' = map_option (\<lambda>path. length path - 1) found"
    "visitedCount st' = visitedCounter r" "wfGrid (grid st')" "\<not> isRunning st'"
    "startCell st' = Some s" "endCell st' = Some e"
    "render (resetView (grid st) s) (events r) = Inr (grid st')"
    "drawMode st' = drawMode st"
proof -
  let ?r0 = "initialRun (grid st) s"
  have inv: "runInv ?r0"
    using wf by (rule runInv_initialRun)
  have t: "treeInv s (currentGrid ?r0)"
    using wf s by (rule treeInv_initialRun)
  obtain r found where l: "loop e ?r0 = Some (r, found)"
    using inv t s by (cases rule: loop_outcome [where e = e]) auto
  have "\<forall>ev \<in> set (events r). inBounds (eventPos ev)"
    using inv t s l by (rule loop_events)
  with wfGrid_resetView [OF wf, of s] obtain view where
    v: "render (resetView (grid st) s) (events r) = Inr view" "wfGrid view"
    using render_ok by blast
  define st' where "st' = st\<lparr>grid := view, isRunning := False,
                  pathLength := map_option (\<lambda>path. length path - 1) found,
                  visitedCount := visitedCounter r,
                  animationRef := (if scheduled r = 0 then animationRef st
                                   else Some (nextTimer st + scheduled r - 1)),
                  nextTimer := nextTimer st + scheduled r\<rparr>"
  have "dijkstra st = Some (Inr (st', r))"
    using wf st s by (simp add: dijkstra_def covers_wf inGrid_wf l v st'_def)
  moreover have "pathLength st' = map_option (\<lambda>path. length path - 1) found"
    "visitedCount st' = visitedCounter r" "wfGrid (grid st')" "\<not> isRunning st'"
    "startCell st' = Some s" "endCell st' = Some e"
    "render (resetView (grid st) s) (events r) = Inr (grid st')"
    "drawMode st' = drawMode st"
    using v st by (simp_all add: st'_def)
  ultimately show ?thesis
    using l by (intro that [of st' r found])
qed

section \<open>Order of finalization\<close>

lemma orderInv_initialRun: "orderInv (initialRun g s)"
  by (simp add: orderInv_def initialRun_fields)

lemma orderInv_continues:
  assumes inv: "runInv r" and o: "orderInv r" and c: "continues e r cur r'"
  shows "orderInv r'"
  unfolding orderInv_def
proof (intro conjI ballI)
  note d = continuesD [OF c]
  have le: "distance x \<le> distance (cellAt (currentGrid r) cur)" if "x \<in> set (finalized r)" for x
    using o that d(1) unfolding orderInv_def by blast
  show "sorted (map distance (finalized r'))"
    using o le by (auto simp: d(11) sorted_append orderInv_def)
  show "length (finalized r') = visitedCounter r'"
    using o by (simp add: d(10,11) orderInv_def)
  fix x u assume x: "x \<in> set (finalized r')" and u: "u \<in> set (unvisitedNodes r')"
  from u have u': "u \<in> set (unvisitedNodes r)" "u \<noteq> cur"
    by (simp_all add: d(6))
  then have inb: "inBounds u"
    using runInv_unvisited [OF inv] by blast
  have cur_le: "distance (cellAt (currentGrid r) cur) \<le> distance (cellAt (currentGrid r') u)"
    using d(5) [OF u'(1)] by (simp add: d(9) [OF inb] nextCell_distance)
  from x have "x \<in> set (finalized r) \<or> distance x = distance (cellAt (currentGrid r) cur)"
    by (auto simp: d(11))
  then show "distance x \<le> distance (cellAt (currentGrid r') u)"
    using le cur_le by (auto intro: order_trans)
qed

lemma loop_sorted:
  assumes inv: "runInv r0" and t: "treeInv s (currentGrid r0)" and s: "inBounds s"
    and o: "orderInv r0" and l: "loop e r0 = Some (r, found)"
  shows "sorted (map distance (finalized r)) \<and> length (finalized r) = visitedCounter r"
  using inv t s
proof (cases rule: loop_outcome [where e = e])
  case (none rf r')
  have "orderInv rf"
    using none(1) inv o
    by (rule runStates_invariant [where I = orderInv]) (rule orderInv_continues)
  with none l show ?thesis
    by (simp add: orderInv_def)
next
  case (found rf r' path)
  have o': "orderInv rf"
    using found(1) inv o
    by (rule runStates_invariant [where I = orderInv]) (rule orderInv_continues)
  note d = foundsD [OF found(3)]
  have "distance x \<le> distance (cellAt (currentGrid rf) e)" if "x \<in> set (finalized rf)" for x
    using o' that d(1) unfolding orderInv_def by blast
  with o' have "sorted (map distance (finalized r')) \<and> length (finalized r') = visitedCounter r'"
    by (auto simp: d(7,8) sorted_append orderInv_def)
  with found l show ?thesis
    by simp
qed

text \<open>
  C10: in every state at the head of the loop of a run on a well-formed grid, the start cell
  has distance 0 and no predecessor; the run returns; the walk back from the end node
  returns (the iteration never hangs), and the path it builds begins at the start cell and
  ends at the end cell, the start cell still having distance 0 and no predecessor.
\<close>

theorem start_stays_root:
  assumes "wfGrid g" and "inBounds s" and "runStates e (initialRun g s) r"
  shows "distance (cellAt (currentGrid r) s) = 0 \<and> previous (cellAt (currentGrid r) s) = None \<and>
     (\<exists>res. loop e r = Some res) \<and>
     (unvisitedNodes r \<noteq> [] \<longrightarrow>
        step e r \<noteq> Hang \<and>
        (\<forall>r' path. step e r = Found r' path \<longrightarrow>
           hd path = s \<and> last path = e \<and> path \<noteq> [] \<and>
           distance (cellAt (currentGrid r') s) = 0 \<and> previous (cellAt (currentGrid r') s) = None))"
proof -
  have inv0: "runInv (initialRun g s)"
    using assms(1) by (rule runInv_initialRun)
  have t0: "treeInv s (currentGrid (initialRun g s))"
    using assms(1,2) by (rule treeInv_initialRun)
  have inv: "runInv r"
    using assms(3) inv0 by (rule runStates_runInv)
  have t: "treeInv s (currentGrid r)"
    using assms(3) inv0 t0 assms(2) by (rule runStates_treeInv)
  have total: "\<exists>res. loop e r = Some res"
    using inv t assms(2) by (cases rule: loop_outcome [where e = e]) auto
  have found: "hd path = s \<and> last path = e \<and> path \<noteq> [] \<and>
           distance (cellAt (currentGrid r') s) = 0 \<and> previous (cellAt (currentGrid r') s) = None"
    if ne: "unvisitedNodes r \<noteq> []" and f: "step e r = Found r' path" for r' path
  proof -
    have fs: "founds e r r' path"
      using inv ne f by (rule step_Found)
    have "treeInv s (currentGrid r')"
      unfolding foundsD(6) [OF fs]
      using t runInv_wf [OF inv] foundsD(2) [OF fs] assms(2) by (rule treeInv_markVisited)
    then show ?thesis
      using founds_path [OF inv t assms(2) fs] by (simp add: treeInv_def)
  qed
  show ?thesis
    using t total found no_Hang [OF inv t assms(2), of e] by (auto simp: treeInv_def)
qed

lemma initial_unvisited:
  assumes "wfGrid g" "inBounds p" "type (cellAt g p) \<noteq> Wall"
  shows "p \<in> set (unvisitedNodes (initialRun g s))"
  using assms runInv_unvisited [OF runInv_initialRun [OF assms(1)], of p s]
  by (simp add: initialRun_cellAt)

lemma type_defaults:
  "type (cellAt (grid initialState) defaultStart) = Start"
  "type (cellAt (grid initialState) defaultEnd) = End"
  using type_initial [OF inBounds_defaults(1)] type_initial [OF inBounds_defaults(2)]
  by (simp_all add: defaultStart_def defaultEnd_def)

text \<open>
  C2: a run on a well-formed grid returns, and the nodes it took from \<^verbatim>\<open>unvisitedNodes\<close> and
  marked visited, listed in that order with the distance they had at that moment, are in
  non-decreasing order of distance; there are as many of them as the run reports visited.
\<close>

theorem finalized_in_distance_order:
  assumes "wfGrid (grid st)" and "startCell st = Some s" and "endCell st = Some e"
    and "inBounds s"
  shows "\<exists>st' r. dijkstra st = Some (Inr (st', r)) \<and>
     sorted (map distance (finalized r)) \<and> length (finalized r) = visitedCount st'"
proof -
  from assms obtain st' r found where d: "dijkstra st = Some (Inr (st', r))"
    "loop e (initialRun (grid st) s) = Some (r, found)" "visitedCount st' = visitedCounter r"
    by (rule dijkstra_total)
  have "sorted (map distance (finalized r)) \<and> length (finalized r) = visitedCounter r"
    using runInv_initialRun [OF assms(1)] treeInv_initialRun [OF assms(1,4)] assms(4)
      orderInv_initialRun d(2)
    by (rule loop_sorted)
  with d show ?thesis
    by simp
qed

theorem finalized_in_distance_order_witness:
  "wfGrid (grid initialState) \<and> startCell initialState = Some defaultStart \<and>
   endCell initialState = Some defaultEnd \<and> inBounds defaultStart \<and>
   (\<exists>st' r. dijkstra initialState = Some (Inr (st', r)) \<and>
     sorted (map distance (finalized r)) \<and> length (finalized r) = visitedCount st')"
  using finalized_in_distance_order [of initialState defaultStart defaultEnd]
    wf_initial inBounds_defaults
  by (simp add: initial_fields)

section \<open>Start and end on the same cell\<close>

lemma first_step_same:
  assumes wf: "wfGrid g" and s: "inBounds s" and nw: "type (cellAt g s) \<noteq> Wall"
  obtains r' where "loop s (initialRun g s) = Some (r', Some [s])"
    "visitedCounter r' = 1" "length (finalized r') = 1"
    "events r' = (if type (cellAt g s) \<noteq> Start \<and> type (cellAt g s) \<noteq> End
                  then [ShowCurrent s] else [])"
proof -
  let ?r = "initialRun g s"
  have inv: "runInv ?r"
    using wf by (rule runInv_initialRun)
  have t: "treeInv s (currentGrid ?r)"
    using wf s by (rule treeInv_initialRun)
  have mem: "s \<in> set (unvisitedNodes ?r)"
    using wf s nw by (rule initial_unvisited)
  then have ne: "unvisitedNodes ?r \<noteq> []"
    by auto
  have d: "distance (cellAt (currentGrid ?r) p) = (if p = s then 0 else \<infinity>)" if "inBounds p" for p
    using wf that by (rule initialRun_distance)
  show ?thesis
  proof (cases "step s ?r")
    case (Continue r')
    from step_Continue [OF inv ne Continue] obtain cur where "continues s ?r cur r'" ..
    from continuesD(2,3,4) [OF this] d show ?thesis
      by auto
  next
    case (Break r')
    from step_Break [OF inv ne Break] mem d [OF s] show ?thesis
      by auto
  next
    case Hang
    with no_Hang [OF inv t s ne, of s] show ?thesis
      by simp
  next
    case (Found r' path)
    have f: "founds s ?r r' path"
      using inv ne Found by (rule step_Found)
    note p = founds_path [OF inv t s f]
    have "length path = 1"
      using p(1,5) d [OF s] by (cases path) (simp_all add: zero_enat_def)
    with p(2) have path: "path = [s]"
      by (cases path) simp_all
    have l: "loop s ?r = Some (r', Some [s])"
      using ne Found path by (subst loop.simps) simp
    have ty: "type (cellAt (currentGrid ?r) s) \<noteq> Start \<and> type (cellAt (currentGrid ?r) s) \<noteq> End
      \<longleftrightarrow> type (cellAt g s) \<noteq> Start \<and> type (cellAt g s) \<noteq> End"
      using wf s by (auto simp: initialRun_cellAt searchCell_def)
    show ?thesis
      using l foundsD(7,8,9) [OF f] ty
      by (intro that [of r']) (simp_all add: initialRun_fields path)
  qed
qed

subsection \<open>States the component can reach\<close>

lemma stateInvI:
  assumes "wfGrid (grid st)" "\<not> isRunning st" "startCell st = Some s" "endCell st = Some e"
    "inBounds s" "inBounds e"
    "s = e \<Longrightarrow> type (cellAt (grid st) s) = Start \<or> type (cellAt (grid st) s) = End"
  shows "stateInv st"
  unfolding stateInv_def using assms by blast

lemma stateInvE:
  assumes "stateInv st"
  obtains s e where "wfGrid (grid st)" "\<not> isRunning st" "startCell st = Some s"
    "endCell st = Some e" "inBounds s" "inBounds e"
    "s = e \<longrightarrow> type (cellAt (grid st) s) = Start \<or> type (cellAt (grid st) s) = End"
  using assms unfolding stateInv_def by blast

lemma stateInv_initial: "stateInv initialState"
  by (rule stateInvI [where s = defaultStart and e = defaultEnd])
     (simp_all add: wf_initial inBounds_defaults initial_fields type_defaults)

lemma stateInv_click:
  assumes inv: "stateInv st" and cl: "handleCellClick st r c = Inr st'"
  shows "stateInv st'"
proof -
  from inv obtain s e where i: "wfGrid (grid st)" "\<not> isRunning st" "startCell st = Some s"
    "endCell st = Some e" "inBounds s" "inBounds e"
    "s = e \<longrightarrow> type (cellAt (grid st) s) = Start \<or> type (cellAt (grid st) s) = End"
    by (rule stateInvE)
  have rc: "inBounds (r, c)"
    using cl out_of_grid [of st r c] i(1,2) by (auto simp: inGrid_wf)
  show ?thesis
  proof (cases "drawMode st")
    case WallMode
    have st': "st' = (if type (cellAt (grid st) (r, c)) = Empty
          then st\<lparr>grid := setType (grid st) (r, c) Wall\<rparr>
          else if type (cellAt (grid st) (r, c)) = Wall
            then st\<lparr>grid := setType (grid st) (r, c) Empty\<rparr>
          else st)"
      using cl wall_click [OF i(2) WallMode, of r c] rc i(1) by (simp add: inGrid_wf)
    show ?thesis
    proof (rule stateInvI [where s = s and e = e])
      show "wfGrid (grid st')"
        using i(1) by (simp add: st' wfGrid_setType)
      show "s = e \<Longrightarrow> type (cellAt (grid st') s) = Start \<or> type (cellAt (grid st') s) = End"
        using i(1,5,7) rc by (auto simp: st' wf_setTypes)
    qed (use i in \<open>simp_all add: st'\<close>)
  next
    case StartMode
    have st': "st' = st\<lparr>grid := setType (setType (grid st) s Empty) (r, c) Start,
        startCell := Some (r, c)\<rparr>"
      using cl i rc by (simp add: handleCellClick_def StartMode clearHolder_def inGrid_wf
          split: if_splits)
    show ?thesis
    proof (rule stateInvI [where s = "(r, c)" and e = e])
      show "wfGrid (grid st')"
        using i(1) by (simp add: st' wfGrid_setType)
      show "type (cellAt (grid st') (r, c)) = Start \<or> type (cellAt (grid st') (r, c)) = End"
        using i(1) rc by (simp add: st' wf_setTypes wfGrid_setType)
    qed (use i rc in \<open>simp_all add: st'\<close>)
  next
    case EndMode
    have st': "st' = st\<lparr>grid := setType (setType (grid st) e Empty) (r, c) End,
        endCell := Some (r, c)\<rparr>"
      using cl i rc by (simp add: handleCellClick_def EndMode clearHolder_def inGrid_wf
          split: if_splits)
    show ?thesis
    proof (rule stateInvI [where s = s and e = "(r, c)"])
      show "wfGrid (grid st')"
        using i(1) by (simp add: st' wfGrid_setType)
      show "s = (r, c) \<Longrightarrow> type (cellAt (grid st') s) = Start \<or> type (cellAt (grid st') s) = End"
        using i(1) rc by (simp add: st' wf_setTypes wfGrid_setType)
    qed (use i rc in \<open>simp_all add: st'\<close>)
  qed
qed

lemma stateInv_mode: "stateInv st \<Longrightarrow> stateInv (setDrawMode st m)"
  by (simp add: stateInv_def setDrawMode_def)

lemma stateInv_clear:
  assumes "stateInv st"
  shows "stateInv (clearPath st)"
proof -
  from assms obtain s e where i: "wfGrid (grid st)" "\<not> isRunning st" "startCell st = Some s"
    "endCell st = Some e" "inBounds s" "inBounds e"
    "s = e \<longrightarrow> type (cellAt (grid st) s) = Start \<or> type (cellAt (grid st) s) = End"
    by (rule stateInvE)
  show ?thesis
  proof (rule stateInvI [where s = s and e = e])
    show "wfGrid (grid (clearPath st))"
      using i(1,2) by (simp add: clearPath_def wfGrid_map)
    show "s = e \<Longrightarrow> type (cellAt (grid (clearPath st)) s) = Start \<or>
        type (cellAt (grid (clearPath st)) s) = End"
      using i(1,2,5,7) by (auto simp: clearPath_def wf_cellAt_map clearCell_def)
  qed (use i in \<open>simp_all add: clearPath_def\<close>)
qed

lemma stateInv_reset:
  assumes "stateInv st"
  shows "stateInv (resetGrid st)"
proof -
  from assms have nr: "\<not> isRunning st"
    by (simp add: stateInv_def)
  have g: "grid (resetGrid st) = grid initialState"
    "startCell (resetGrid st) = Some defaultStart" "endCell (resetGrid st) = Some defaultEnd"
    "isRunning (resetGrid st) = False"
    using nr by (simp_all add: resetGrid_def initializeGrid_def initialState_def clearTimeout_def
        split: option.splits)
  show ?thesis
    by (rule stateInvI [where s = defaultStart and e = defaultEnd])
       (simp_all add: g wf_initial inBounds_defaults type_defaults)
qed

lemma stateInv_run:
  assumes inv: "stateInv st" and run: "dijkstra st = Some (Inr (st', r))"
  shows "stateInv st'"
proof -
  from inv obtain s e where i: "wfGrid (grid st)" "\<not> isRunning st" "startCell st = Some s"
    "endCell st = Some e" "inBounds s" "inBounds e"
    "s = e \<longrightarrow> type (cellAt (grid st) s) = Start \<or> type (cellAt (grid st) s) = End"
    by (rule stateInvE)
  from i(1,3,4,5) obtain st'' r'' found where d: "dijkstra st = Some (Inr (st'', r''))"
    "loop e (initialRun (grid st) s) = Some (r'', found)"
    "wfGrid (grid st'')" "\<not> isRunning st''" "startCell st'' = Some s" "endCell st'' = Some e"
    "render (resetView (grid st) s) (events r'') = Inr (grid st'')"
    by (rule dijkstra_total)
  from d(1) run have same: "st'' = st'" "r'' = r"
    by simp_all
  show ?thesis
  proof (rule stateInvI [where s = s and e = e])
    assume se: "s = e"
    with i(7) have ty: "type (cellAt (grid st) s) = Start \<or> type (cellAt (grid st) s) = End"
      by simp
    then have nw: "type (cellAt (grid st) s) \<noteq> Wall"
      by auto
    from i(1,5) nw obtain r' where r': "loop s (initialRun (grid st) s) = Some (r', Some [s])"
      "events r' = (if type (cellAt (grid st) s) \<noteq> Start \<and> type (cellAt (grid st) s) \<noteq> End
                  then [ShowCurrent s] else [])"
      by (rule first_step_same)
    from r'(1) d(2) se have "r'' = r'"
      by simp
    with r'(2) ty d(7) have "grid st'' = resetView (grid st) s"
      by auto
    then show "type (cellAt (grid st') s) = Start \<or> type (cellAt (grid st') s) = End"
      using ty i(1,5) unfolding same
      by (auto simp: resetView_def wf_cellAt_updCell wfGrid_map wf_cellAt_map clearCell_def)
  qed (use d i(5,6) in \<open>simp_all add: same [symmetric]\<close>)
qed

lemma reachableState_inv: "reachableState st \<Longrightarrow> stateInv st"
proof (induction rule: reachableState.induct)
  case initial
  show ?case by (rule stateInv_initial)
next
  case (click st r c st')
  then show ?case by (simp add: stateInv_click)
next
  case (mode st m)
  then show ?case by (simp add: stateInv_mode)
next
  case (clear st)
  then show ?case by (simp add: stateInv_clear)
next
  case (reset st)
  then show ?case by (simp add: stateInv_reset)
next
  case (run st st' r)
  then show ?case by (simp add: stateInv_run)
qed

lemma same_cell_run:
  assumes "wfGrid (grid st)" and "startCell st = Some s" and "endCell st = Some s"
    and "inBounds s" and "type (cellAt (grid st) s) \<noteq> Wall"
  shows "\<exists>st' r. dijkstra st = Some (Inr (st', r)) \<and> pathLength st' = Some 0 \<and>
     visitedCount st' = 1 \<and> (\<forall>p. ShowPath p \<notin> set (events r))"
proof -
  from assms(1,2,3,4) obtain st' r found where d: "dijkstra st = Some (Inr (st', r))"
    "loop s (initialRun (grid st) s) = Some (r, found)"
    "pathLength st' = map_option (\<lambda>path. length path - 1) found"
    "visitedCount st' = visitedCounter r"
    by (rule dijkstra_total)
  from assms(1,4,5) obtain r' where r': "loop s (initialRun (grid st) s) = Some (r', Some [s])"
    "visitedCounter r' = 1"
    "events r' = (if type (cellAt (grid st) s) \<noteq> Start \<and> type (cellAt (grid st) s) \<noteq> End
                  then [ShowCurrent s] else [])"
    by (rule first_step_same)
  from d(2) r'(1) have "r = r'" "found = Some [s]"
    by simp_all
  with d r' show ?thesis
    by auto
qed

text \<open>
  C9: in every state the component can reach in which the start and the end coordinates are
  the same, the run returns with path length 0 and one node explored, and no cell is ever
  drawn as path.
\<close>

theorem start_equals_end:
  assumes "reachableState st" and "startCell st = Some p" and "endCell st = Some p"
  shows "\<exists>st' r. dijkstra st = Some (Inr (st', r)) \<and> pathLength st' = Some 0 \<and>
     visitedCount st' = 1 \<and> (\<forall>q. ShowPath q \<notin> set (events r))"
proof -
  from assms(1) have "stateInv st"
    by (rule reachableState_inv)
  then obtain s e where i: "wfGrid (grid st)" "startCell st = Some s" "endCell st = Some e"
    "inBounds s"
    "s = e \<longrightarrow> type (cellAt (grid st) s) = Start \<or> type (cellAt (grid st) s) = End"
    by (rule stateInvE)
  from i(2,3) assms(2,3) have "s = p" "e = p"
    by simp_all
  with i have "wfGrid (grid st)" "inBounds p" "type (cellAt (grid st) p) \<noteq> Wall"
    by auto
  with assms(2,3) show ?thesis
    by (intro same_cell_run) simp_all
qed

lemma overlapped_click: "handleCellClick (setDrawMode initialState StartMode) 12 40 = Inr overlapped"
  by (simp add: start_over_end_state overlapped_def)

theorem start_equals_end_witness:
  "reachableState overlapped \<and> startCell overlapped = Some defaultEnd \<and>
   endCell overlapped = Some defaultEnd \<and>
   (\<exists>st' r. dijkstra overlapped = Some (Inr (st', r)) \<and> pathLength st' = Some 0 \<and>
     visitedCount st' = 1 \<and> (\<forall>q. ShowPath q \<notin> set (events r)))"
proof -
  have a: "reachableState overlapped"
    using reachableState.mode [OF reachableState.initial, of StartMode] overlapped_click
    by (rule reachableState.click)
  have b: "startCell overlapped = Some defaultEnd" "endCell overlapped = Some defaultEnd"
    by (simp_all add: overlapped_def initial_fields)
  show ?thesis
    using start_equals_end [OF a b] a b by simp
qed

lemma same_neighbors:
  assumes "wfGrid g" "wfGrid g'" "inBounds p"
  shows "getNeighbors (cellAt g' p) = getNeighbors (cellAt g p)"
  using fields_wf [OF assms(1,3)] fields_wf [OF assms(2,3)] by (simp add: getNeighbors_def)

lemma reachInv_initialRun:
  assumes wf: "wfGrid g" and s: "inBounds s"
  shows "reachInv g s (initialRun g s)"
  unfolding reachInv_def
proof (intro conjI allI impI)
  fix p assume "inBounds p"
  then show "type (cellAt (currentGrid (initialRun g s)) p) = Wall \<longleftrightarrow> type (cellAt g p) = Wall"
    using wf by (simp add: initialRun_cellAt)
next
  fix p
  assume p: "inBounds p \<and> type (cellAt g p) \<noteq> Wall \<and>
    distance (cellAt (currentGrid (initialRun g s)) p) \<noteq> \<infinity>"
  then have "p = s"
    using initialRun_distance [OF wf, of p s] by (auto split: if_splits)
  with p show "reachable g s p"
    by (auto intro: reachable.start)
qed

lemma reachInv_wall:
  "reachInv g s r \<Longrightarrow> inBounds p \<Longrightarrow>
     type (cellAt (currentGrid r) p) = Wall \<longleftrightarrow> type (cellAt g p) = Wall"
  unfolding reachInv_def by blast

lemma reachInv_reachable:
  "reachInv g s r \<Longrightarrow> inBounds p \<Longrightarrow> type (cellAt g p) \<noteq> Wall \<Longrightarrow>
     distance (cellAt (currentGrid r) p) \<noteq> \<infinity> \<Longrightarrow> reachable g s p"
  unfolding reachInv_def by blast

lemma reachInv_continues:
  assumes wf: "wfGrid g" and inv: "runInv r" and ri: "reachInv g s r" and c: "continues e r cur r'"
  shows "reachInv g s r'"
  unfolding reachInv_def
proof (intro conjI allI impI)
  note d = continuesD [OF c]
  fix p assume "inBounds p"
  then show "type (cellAt (currentGrid r') p) = Wall \<longleftrightarrow> type (cellAt g p) = Wall"
    using reachInv_wall [OF ri, of p] by (simp add: d(9))
next
  note d = continuesD [OF c]
  fix p
  assume p: "inBounds p \<and> type (cellAt g p) \<noteq> Wall \<and> distance (cellAt (currentGrid r') p) \<noteq> \<infinity>"
  then have inb: "inBounds p" and nw: "type (cellAt g p) \<noteq> Wall"
    and fin: "distance (nextCell (currentGrid r) cur p) \<noteq> \<infinity>"
    using d(9) [of p] by auto
  show "reachable g s p"
  proof (cases "p \<noteq> cur \<and> p \<in> set (getNeighbors (cellAt (currentGrid r) cur)) \<and>
      relaxed (currentGrid r) cur p")
    case True
    have "type (cellAt g cur) \<noteq> Wall"
      using d(1,2) runInv_unvisited [OF inv, of cur] reachInv_wall [OF ri, of cur] by simp
    then have "reachable g s cur"
      using d(2,4) reachInv_reachable [OF ri, of cur] by blast
    moreover have "p \<in> set (getNeighbors (cellAt g cur))"
      using True same_neighbors [OF wf runInv_wf [OF inv] d(2)] by simp
    ultimately show ?thesis
      using nw by (rule reachable.move)
  next
    case False
    then have "distance (cellAt (currentGrid r) p) \<noteq> \<infinity>"
      using fin by (auto simp: nextCell_distance)
    with inb nw show ?thesis
      using reachInv_reachable [OF ri, of p] by blast
  qed
qed

lemma loop_found_reachable:
  assumes wf: "wfGrid g" and s: "inBounds s" and l: "loop e (initialRun g s) = Some (r, Some path)"
  shows "reachable g s e"
  using runInv_initialRun [OF wf, of s] treeInv_initialRun [OF wf s] s
proof (cases rule: loop_outcome [where e = e])
  case (none rf r')
  with l show ?thesis by simp
next
  case (found rf r' path')
  have inv: "runInv rf"
    using found(1) runInv_initialRun [OF wf] by (rule runStates_runInv)
  have ri: "reachInv g s rf"
    using found(1) runInv_initialRun [OF wf] reachInv_initialRun [OF wf s]
    by (rule runStates_invariant [where I = "reachInv g s"]) (rule reachInv_continues [OF wf])
  note d = foundsD [OF found(3)]
  have "type (cellAt g e) \<noteq> Wall"
    using d(1,2) runInv_unvisited [OF inv, of e] reachInv_wall [OF ri, of e] by simp
  then show ?thesis
    using d(2,3) reachInv_reachable [OF ri, of e] by blast
qed

lemma loop_none_infinite:
  assumes wf: "wfGrid g" and s: "inBounds s" and l: "loop e (initialRun g s) = Some (r, None)"
  shows "\<forall>u \<in> set (unvisitedNodes r). distance (cellAt (currentGrid r) u) = \<infinity>"
  using runInv_initialRun [OF wf, of s] treeInv_initialRun [OF wf s] s
proof (cases rule: loop_outcome [where e = e])
  case (none rf r')
  with l show ?thesis by auto
next
  case (found rf r' path')
  with l show ?thesis by simp
qed

text \<open>
  C5: when the end cell is not reachable from the start cell on a well-formed grid, the run
  returns (no failure, no hanging walk), the path length stays \<^verbatim>\<open>null\<close>, and every node
  still unvisited when the loop ends has infinite distance.
\<close>

theorem unreachable_end:
  assumes "wfGrid (grid st)" and "startCell st = Some s" and "endCell st = Some e"
    and "inBounds s" and "\<not> reachable (grid st) s e"
  shows "\<exists>st' r. dijkstra st = Some (Inr (st', r)) \<and> pathLength st' = None \<and>
     (\<forall>u \<in> set (unvisitedNodes r). distance (cellAt (currentGrid r) u) = \<infinity>)"
proof -
  from assms(1,2,3,4) obtain st' r found where d: "dijkstra st = Some (Inr (st', r))"
    "loop e (initialRun (grid st) s) = Some (r, found)"
    "pathLength st' = map_option (\<lambda>path. length path - 1) found"
    by (rule dijkstra_total)
  have "found = None"
    using loop_found_reachable [OF assms(1,4), of e r] d(2) assms(5) by (cases found) auto
  with d loop_none_infinite [OF assms(1,4), of e r] show ?thesis
    by auto
qed

lemma wall_column:
  assumes "wfGrid g" "\<forall>r \<in> set rs. inBounds (r, c)"
  shows "wfGrid (foldl (\<lambda>g r. setType g (r, c) t) g rs) \<and>
    (\<forall>p. inBounds p \<longrightarrow>
       cellAt (foldl (\<lambda>g r. setType g (r, c) t) g rs) p =
         (if snd p = c \<and> fst p \<in> set rs then (cellAt g p)\<lparr>type := t\<rparr> else cellAt g p))"
  using assms
proof (induction rs arbitrary: g)
  case Nil
  then show ?case by simp
next
  case (Cons r rs)
  let ?g = "setType g (r, c) t"
  have wf: "wfGrid ?g"
    using Cons.prems(1) by (rule wfGrid_setType)
  have rc: "inBounds (r, c)"
    using Cons.prems(2) by simp
  have rest: "\<forall>r \<in> set rs. inBounds (r, c)"
    using Cons.prems(2) by simp
  note ih = Cons.IH [OF wf rest]
  show ?case
  proof (intro conjI allI impI)
    show "wfGrid (foldl (\<lambda>g r. setType g (r, c) t) g (r # rs))"
      using ih by simp
  next
    fix p assume p: "inBounds p"
    have "cellAt (foldl (\<lambda>g r. setType g (r, c) t) ?g rs) p =
         (if snd p = c \<and> fst p \<in> set rs then (cellAt ?g p)\<lparr>type := t\<rparr> else cellAt ?g p)"
      using ih p by blast
    moreover have "cellAt ?g p = (if p = (r, c) then (cellAt g (r, c))\<lparr>type := t\<rparr> else cellAt g p)"
      using Cons.prems(1) rc p by (simp add: wf_setTypes)
    ultimately show "cellAt (foldl (\<lambda>g r. setType g (r, c) t) g (r # rs)) p =
         (if snd p = c \<and> fst p \<in> set (r # rs) then (cellAt g p)\<lparr>type := t\<rparr> else cellAt g p)"
      by (cases p) auto
  qed
qed

lemma barrier_grid:
  "wfGrid (grid barrier)"
  "inBounds p \<Longrightarrow> type (cellAt (grid barrier) p) =
     (if snd p = 20 then Wall else type (cellAt (grid initialState) p))"
proof -
  have rows: "\<forall>r \<in> set [0..GRID_ROWS - 1]. inBounds (r, 20)"
    by (simp add: inBounds_def GRID_COLS_def)
  note w = wall_column [OF wf_initial rows, of Wall]
  have g: "grid barrier =
      foldl (\<lambda>g r. setType g (r, 20) Wall) (grid initialState) [0..GRID_ROWS - 1]"
    by (simp add: barrier_def)
  show "wfGrid (grid barrier)"
    unfolding g using w by blast
  show "type (cellAt (grid barrier) p) =
     (if snd p = 20 then Wall else type (cellAt (grid initialState) p))" if "inBounds p"
  proof -
    have "cellAt (grid barrier) p =
       (if snd p = 20 \<and> fst p \<in> set [0..GRID_ROWS - 1]
        then (cellAt (grid initialState) p)\<lparr>type := Wall\<rparr> else cellAt (grid initialState) p)"
      unfolding g using w that by blast
    moreover have "fst p \<in> set [0..GRID_ROWS - 1]"
      using that by (simp add: inBounds_def)
    ultimately show ?thesis
      by simp
  qed
qed

lemma barrier_side:
  assumes "reachable (grid barrier) defaultStart p"
  shows "inBounds p \<and> snd p < 20"
  using assms
proof (induction rule: reachable.induct)
  case start
  then show ?case
    by (simp add: defaultStart_def)
next
  case (move p q)
  then have p: "inBounds p" "snd p < 20"
    by simp_all
  from move.hyps(2) have q: "inBounds q" "\<bar>fst q - fst p\<bar> + \<bar>snd q - snd p\<bar> = 1"
    using fields_wf [OF barrier_grid(1) p(1)] by (simp_all add: nbrs)
  have "snd q \<noteq> 20"
    using move.hyps(3) barrier_grid(2) [OF q(1)] by auto
  with p(2) q show ?case
    by auto
qed

theorem unreachable_end_witness:
  "wfGrid (grid barrier) \<and> startCell barrier = Some defaultStart \<and>
   endCell barrier = Some defaultEnd \<and> inBounds defaultStart \<and>
   \<not> reachable (grid barrier) defaultStart defaultEnd \<and>
   (\<exists>st' r. dijkstra barrier = Some (Inr (st', r)) \<and> pathLength st' = None)"
proof -
  have b: "startCell barrier = Some defaultStart" "endCell barrier = Some defaultEnd"
    by (simp_all add: barrier_def initial_fields)
  have c: "\<not> reachable (grid barrier) defaultStart defaultEnd"
    using barrier_side [of defaultEnd] by (auto simp: defaultEnd_def)
  show ?thesis
    using unreachable_end [OF barrier_grid(1) b inBounds_defaults(1) c]
      barrier_grid(1) b c inBounds_defaults(1)
    by auto
qed

section \<open>A grid without walls\<close>

lemma bfsInvD:
  assumes "bfsInv s r"
  shows "treeInv s (currentGrid r)"
    "inBounds p \<Longrightarrow> type (cellAt (currentGrid r) p) \<noteq> Wall"
    "inBounds p \<Longrightarrow> distance (cellAt (currentGrid r) p) = \<infinity> \<or>
        distance (cellAt (currentGrid r) p) = enat (manhattan s p)"
    "inBounds v \<Longrightarrow> isVisited (cellAt (currentGrid r) v) \<Longrightarrow>
        distance (cellAt (currentGrid r) v) \<noteq> \<infinity>"
    "inBounds v \<Longrightarrow> isVisited (cellAt (currentGrid r) v) \<Longrightarrow>
        q \<in> set (getNeighbors (cellAt (currentGrid r) v)) \<Longrightarrow>
        distance (cellAt (currentGrid r) q) \<noteq> \<infinity>"
    "inBounds v \<Longrightarrow> isVisited (cellAt (currentGrid r) v) \<Longrightarrow> u \<in> set (unvisitedNodes r) \<Longrightarrow>
        manhattan s v \<le> manhattan s u"
  using assms unfolding bfsInv_def by (blast+)

lemma manhattan_int: "int (manhattan a b) = \<bar>fst a - fst b\<bar> + \<bar>snd a - snd b\<bar>"
  by (simp add: manhattan_def)

lemma abs_step:
  fixes a b c d x y :: int
  assumes "\<bar>c - a\<bar> + \<bar>d - b\<bar> = 1"
  shows "\<bar>x - c\<bar> + \<bar>y - d\<bar> = \<bar>x - a\<bar> + \<bar>y - b\<bar> + 1 \<or>
         \<bar>x - c\<bar> + \<bar>y - d\<bar> + 1 = \<bar>x - a\<bar> + \<bar>y - b\<bar>"
proof -
  from assms have "(c, d) \<in> {(a - 1, b), (a, b + 1), (a + 1, b), (a, b - 1)}"
    by (simp only: unit_step)
  then show ?thesis
    by auto
qed

lemma manhattan_step:
  assumes "\<bar>fst q - fst p\<bar> + \<bar>snd q - snd p\<bar> = 1"
  shows "manhattan s q = manhattan s p + 1 \<or> manhattan s q + 1 = manhattan s p"
proof -
  have "int (manhattan s q) = int (manhattan s p) + 1 \<or>
        int (manhattan s q) + 1 = int (manhattan s p)"
    unfolding manhattan_int using assms by (rule abs_step)
  then show ?thesis
    by linarith
qed

lemma manhattan_closer:
  assumes "inBounds p" "inBounds s" "p \<noteq> s"
  obtains w where "inBounds w" "\<bar>fst p - fst w\<bar> + \<bar>snd p - snd w\<bar> = 1"
    "manhattan s w + 1 = manhattan s p"
proof (cases "fst p = fst s")
  case True
  with assms(3) have ne: "snd p \<noteq> snd s"
    by (auto simp: prod_eq_iff)
  let ?w = "(fst p, if snd p < snd s then snd p + 1 else snd p - 1)"
  have "inBounds ?w"
    using assms(1,2) ne by (auto simp: inBounds_def)
  moreover have "\<bar>fst p - fst ?w\<bar> + \<bar>snd p - snd ?w\<bar> = 1"
    by simp
  moreover have "int (manhattan s ?w) + 1 = int (manhattan s p)"
    unfolding manhattan_int using ne True by auto
  then have "manhattan s ?w + 1 = manhattan s p"
    by linarith
  ultimately show ?thesis
    by (rule that)
next
  case False
  let ?w = "(if fst p < fst s then fst p + 1 else fst p - 1, snd p)"
  have "inBounds ?w"
    using assms(1,2) False by (auto simp: inBounds_def)
  moreover have "\<bar>fst p - fst ?w\<bar> + \<bar>snd p - snd ?w\<bar> = 1"
    by simp
  moreover have "int (manhattan s ?w) + 1 = int (manhattan s p)"
    unfolding manhattan_int using False by auto
  then have "manhattan s ?w + 1 = manhattan s p"
    by linarith
  ultimately show ?thesis
    by (rule that)
qed

lemma neighbor_iff:
  assumes "wfGrid g" "inBounds p"
  shows "q \<in> set (getNeighbors (cellAt g p)) \<longleftrightarrow>
    inBounds q \<and> \<bar>fst q - fst p\<bar> + \<bar>snd q - snd p\<bar> = 1"
  using fields_wf [OF assms] by (simp add: nbrs)

lemma bfs_closest:
  assumes inv: "runInv r" and b: "bfsInv s r" and s: "inBounds s"
    and ne: "unvisitedNodes r \<noteq> []"
  obtains u where "u \<in> set (unvisitedNodes r)"
    "distance (cellAt (currentGrid r) u) = enat (manhattan s u)"
    "\<forall>y \<in> set (unvisitedNodes r). manhattan s u \<le> manhattan s y"
proof -
  note d = bfsInvD [OF b]
  have wf: "wfGrid (currentGrid r)"
    using inv by (rule runInv_wf)
  from ne obtain k where "k \<in> set (unvisitedNodes r)"
    by (cases "unvisitedNodes r") auto
  then obtain u where u: "u \<in> set (unvisitedNodes r)"
    and least: "\<forall>y. y \<in> set (unvisitedNodes r) \<longrightarrow> manhattan s u \<le> manhattan s y"
    using ex_has_least_nat [of "\<lambda>p. p \<in> set (unvisitedNodes r)" k "manhattan s"] by blast
  have inb: "inBounds u"
    using u runInv_unvisited [OF inv] by blast
  have fin: "distance (cellAt (currentGrid r) u) \<noteq> \<infinity>"
  proof (cases "u = s")
    case True
    then show ?thesis
      using d(1) by (simp add: treeInv_def)
  next
    case False
    with inb s obtain w where w: "inBounds w" "\<bar>fst u - fst w\<bar> + \<bar>snd u - snd w\<bar> = 1"
      "manhattan s w + 1 = manhattan s u"
      by (rule manhattan_closer)
    have "w \<notin> set (unvisitedNodes r)"
    proof
      assume "w \<in> set (unvisitedNodes r)"
      with least have "manhattan s u \<le> manhattan s w"
        by blast
      with w(3) show False
        by simp
    qed
    then have vis: "isVisited (cellAt (currentGrid r) w)"
      using runInv_unvisited [OF inv, of w] w(1) d(2) [OF w(1)] by simp
    have "u \<in> set (getNeighbors (cellAt (currentGrid r) w))"
      using w(2) inb by (simp add: neighbor_iff [OF wf w(1)])
    with w(1) vis show ?thesis
      by (rule d(5))
  qed
  with d(3) [OF inb] have "distance (cellAt (currentGrid r) u) = enat (manhattan s u)"
    by simp
  with u least show ?thesis
    by (intro that [of u]) auto
qed

lemma bfsInv_initialRun:
  assumes wf: "wfGrid g" and s: "inBounds s"
    and nw: "\<And>p. inBounds p \<Longrightarrow> type (cellAt g p) \<noteq> Wall"
  shows "bfsInv s (initialRun g s)"
  unfolding bfsInv_def
proof (intro conjI allI impI ballI)
  show "treeInv s (currentGrid (initialRun g s))"
    using wf s by (rule treeInv_initialRun)
next
  fix p assume "inBounds p"
  then show "type (cellAt (currentGrid (initialRun g s)) p) \<noteq> Wall"
    using wf nw [of p] by (simp add: initialRun_cellAt)
next
  fix p assume "inBounds p"
  then show "distance (cellAt (currentGrid (initialRun g s)) p) = \<infinity> \<or>
        distance (cellAt (currentGrid (initialRun g s)) p) = enat (manhattan s p)"
    using wf by (simp add: initialRun_distance manhattan_def zero_enat_def)
next
  fix v assume "inBounds v \<and> isVisited (cellAt (currentGrid (initialRun g s)) v)"
  then show "distance (cellAt (currentGrid (initialRun g s)) v) \<noteq> \<infinity>"
    using wf by (auto simp: initialRun_cellAt)
next
  fix v q assume "inBounds v \<and> isVisited (cellAt (currentGrid (initialRun g s)) v)"
  then show "distance (cellAt (currentGrid (initialRun g s)) q) \<noteq> \<infinity>"
    using wf by (auto simp: initialRun_cellAt)
next
  fix v u
  assume "inBounds v \<and> isVisited (cellAt (currentGrid (initialRun g s)) v) \<and>
    u \<in> set (unvisitedNodes (initialRun g s))"
  then show "manhattan s v \<le> manhattan s u"
    using wf by (auto simp: initialRun_cellAt)
qed

lemma finite_plus_one: "d \<noteq> \<infinity> \<Longrightarrow> d + 1 \<noteq> (\<infinity>::enat)"
  by (cases d) (simp_all add: one_enat_def)

lemma not_relaxed_finite:
  "d \<noteq> \<infinity> \<Longrightarrow> \<not> d + 1 < x \<Longrightarrow> x \<noteq> (\<infinity>::enat)"
  using finite_plus_one [of d] by (cases x) (auto simp: less_le)

lemma bfs_taken_closest:
  assumes inv: "runInv r" and b: "bfsInv s r" and s: "inBounds s"
    and c: "continues e r cur r'"
  shows "distance (cellAt (currentGrid r) cur) = enat (manhattan s cur)"
    and "\<forall>y \<in> set (unvisitedNodes r). manhattan s cur \<le> manhattan s y"
proof -
  note d = continuesD [OF c]
  note B = bfsInvD [OF b]
  have ne: "unvisitedNodes r \<noteq> []"
    using d(1) by auto
  from inv b s ne obtain u where u: "u \<in> set (unvisitedNodes r)"
    "distance (cellAt (currentGrid r) u) = enat (manhattan s u)"
    "\<forall>y \<in> set (unvisitedNodes r). manhattan s u \<le> manhattan s y"
    by (rule bfs_closest)
  show eq: "distance (cellAt (currentGrid r) cur) = enat (manhattan s cur)"
    using B(3) [OF d(2)] d(4) by simp
  have "distance (cellAt (currentGrid r) cur) \<le> distance (cellAt (currentGrid r) u)"
    using u(1) by (rule d(5))
  then have "manhattan s cur \<le> manhattan s u"
    by (simp add: eq u(2))
  with u(3) show "\<forall>y \<in> set (unvisitedNodes r). manhattan s cur \<le> manhattan s y"
    by (auto intro: order_trans)
qed

lemma bfsInv_continues:
  assumes inv: "runInv r" and b: "bfsInv s r" and s: "inBounds s"
    and c: "continues e r cur r'"
  shows "bfsInv s r'"
  unfolding bfsInv_def
proof (intro conjI allI impI ballI)
  show "treeInv s (currentGrid r')"
    using bfsInvD(1) [OF b] c s by (rule treeInv_continues)
next
  fix p assume "inBounds p"
  then show "type (cellAt (currentGrid r') p) \<noteq> Wall"
    using bfsInvD(2) [OF b, of p] by (simp add: continuesD(9) [OF c])
next
  note d = continuesD [OF c]
  note B = bfsInvD [OF b]
  note m = bfs_taken_closest [OF inv b s c]
  fix p assume p: "inBounds p"
  show "distance (cellAt (currentGrid r') p) = \<infinity> \<or>
        distance (cellAt (currentGrid r') p) = enat (manhattan s p)"
  proof (cases "p \<noteq> cur \<and> p \<in> set (getNeighbors (cellAt (currentGrid r) cur)) \<and>
      relaxed (currentGrid r) cur p")
    case True
    then have "p \<in> set (unvisitedNodes r)"
      using runInv_unvisited [OF inv, of p] p B(2) [OF p] by (simp add: relaxed_def)
    with m(2) have "manhattan s cur \<le> manhattan s p"
      by blast
    moreover have "\<bar>fst p - fst cur\<bar> + \<bar>snd p - snd cur\<bar> = 1"
      using True by (simp add: neighbor_iff [OF runInv_wf [OF inv] d(2)])
    ultimately have "manhattan s p = manhattan s cur + 1"
      using manhattan_step [of p cur s] by auto
    then show ?thesis
      using True by (simp add: d(9) [OF p] nextCell_distance m(1) one_enat_def)
  next
    case False
    then show ?thesis
      using B(3) [OF p] by (auto simp: d(9) [OF p] nextCell_distance)
  qed
next
  note d = continuesD [OF c]
  note B = bfsInvD [OF b]
  fix v assume v: "inBounds v \<and> isVisited (cellAt (currentGrid r') v)"
  then have inb: "inBounds v" and vis: "v = cur \<or> isVisited (cellAt (currentGrid r) v)"
    using d(9) [of v] by auto
  show "distance (cellAt (currentGrid r') v) \<noteq> \<infinity>"
    using vis d(4) B(4) [OF inb] by (auto simp: d(9) [OF inb] nextCell_distance relaxed_def)
next
  note d = continuesD [OF c]
  note B = bfsInvD [OF b]
  fix v q
  assume v: "inBounds v \<and> isVisited (cellAt (currentGrid r') v)"
    and q: "q \<in> set (getNeighbors (cellAt (currentGrid r') v))"
  from v have inb: "inBounds v" and vis: "v = cur \<or> isVisited (cellAt (currentGrid r) v)"
    using d(9) [of v] by auto
  have q': "q \<in> set (getNeighbors (cellAt (currentGrid r) v))"
    using q same_neighbors [OF runInv_wf [OF inv] d(8) inb] by simp
  then have qb: "inBounds q"
    by (rule getNeighbors_inBounds)
  show "distance (cellAt (currentGrid r') q) \<noteq> \<infinity>"
  proof (cases "q \<noteq> cur \<and> q \<in> set (getNeighbors (cellAt (currentGrid r) cur)) \<and>
      relaxed (currentGrid r) cur q")
    case True
    then show ?thesis
      using finite_plus_one [OF d(4)] by (simp add: d(9) [OF qb] nextCell_distance)
  next
    case False
    have "distance (cellAt (currentGrid r) q) \<noteq> \<infinity>"
    proof (cases "isVisited (cellAt (currentGrid r) v)")
      case True
      with inb show ?thesis
        using q' by (rule B(5))
    next
      case nv: False
      with vis have vc: "v = cur" by simp
      show ?thesis
      proof (cases "q = cur")
        case True
        then show ?thesis using d(4) by simp
      next
        case qc: False
        with False q' vc have nr: "\<not> relaxed (currentGrid r) cur q"
          by simp
        show ?thesis
        proof (cases "isVisited (cellAt (currentGrid r) q)")
          case True
          with qb show ?thesis by (rule B(4))
        next
          case False
          with nr B(2) [OF qb] have "\<not> distance (cellAt (currentGrid r) cur) + 1
              < distance (cellAt (currentGrid r) q)"
            by (simp add: relaxed_def)
          with d(4) show ?thesis
            by (rule not_relaxed_finite)
        qed
      qed
    qed
    with False show ?thesis
      by (auto simp: d(9) [OF qb] nextCell_distance)
  qed
next
  note d = continuesD [OF c]
  note B = bfsInvD [OF b]
  note m = bfs_taken_closest [OF inv b s c]
  fix v u
  assume a: "inBounds v \<and> isVisited (cellAt (currentGrid r') v) \<and> u \<in> set (unvisitedNodes r')"
  then have inb: "inBounds v" and vis: "v = cur \<or> isVisited (cellAt (currentGrid r) v)"
    and u: "u \<in> set (unvisitedNodes r)"
    using d(9) [of v] by (auto simp: d(6))
  show "manhattan s v \<le> manhattan s u"
  proof (cases "v = cur")
    case True
    with m(2) u show ?thesis by blast
  next
    case False
    with vis have "isVisited (cellAt (currentGrid r) v)" by simp
    with inb show ?thesis using u by (rule B(6))
  qed
qed

lemma loop_manhattan:
  assumes wf: "wfGrid g" and s: "inBounds s" and e: "inBounds e"
    and nw: "\<And>p. inBounds p \<Longrightarrow> type (cellAt g p) \<noteq> Wall"
  shows "\<exists>r path. loop e (initialRun g s) = Some (r, Some path) \<and>
     length path - 1 = manhattan s e"
proof -
  let ?r0 = "initialRun g s"
  let ?I = "\<lambda>r. bfsInv s r \<and> e \<in> set (unvisitedNodes r)"
  have inv0: "runInv ?r0"
    using wf by (rule runInv_initialRun)
  have I0: "?I ?r0"
    using bfsInv_initialRun [OF wf s nw] initial_unvisited [OF wf e nw [OF e]] by simp
  have step: "?I r'" if "runInv r" "?I r" "continues e r cur r'" for r cur r'
    using bfsInv_continues [OF that(1) _ s that(3)] that(2) continuesD(3,6) [OF that(3)]
    by auto
  have I: "?I rf" if "runStates e ?r0 rf" for rf
    using that inv0 I0 by (rule runStates_invariant [where I = ?I]) (rule step)
  show ?thesis
    using inv0 treeInv_initialRun [OF wf s] s
  proof (cases rule: loop_outcome [where e = e])
    case (none rf r')
    have inv: "runInv rf"
      using none(1) inv0 by (rule runStates_runInv)
    from I [OF none(1)] have b: "bfsInv s rf" and mem: "e \<in> set (unvisitedNodes rf)"
      by simp_all
    from mem have "unvisitedNodes rf \<noteq> []"
      by auto
    with inv b s obtain u where "u \<in> set (unvisitedNodes rf)"
      "distance (cellAt (currentGrid rf) u) = enat (manhattan s u)"
      by (rule bfs_closest)
    with none(7) show ?thesis
      by auto
  next
    case (found rf r' path)
    have inv: "runInv rf"
      using found(1) inv0 by (rule runStates_runInv)
    from I [OF found(1)] have b: "bfsInv s rf"
      by simp
    have "enat (length path - 1) = distance (cellAt (currentGrid rf) e)"
      using inv bfsInvD(1) [OF b] s found(3) by (rule founds_path(1))
    moreover have "distance (cellAt (currentGrid rf) e) = enat (manhattan s e)"
      using bfsInvD(3) [OF b e] foundsD(3) [OF found(3)] by simp
    ultimately have "length path - 1 = manhattan s e"
      by simp
    with found(2) show ?thesis
      by blast
  qed
qed

text \<open>
  C1: on a well-formed grid without wall cells, with start and end cells set inside the
  grid, the run returns and sets the path length to their Manhattan distance.
\<close>

theorem open_grid_path_length:
  assumes "wfGrid (grid st)" and "startCell st = Some s" and "endCell st = Some e"
    and "inBounds s" and "inBounds e"
    and "\<forall>p. inBounds p \<longrightarrow> type (cellAt (grid st) p) \<noteq> Wall"
  shows "\<exists>st' r. dijkstra st = Some (Inr (st', r)) \<and>
     pathLength st' = Some (nat (\<bar>fst s - fst e\<bar> + \<bar>snd s - snd e\<bar>))"
proof -
  from assms(1,2,3,4) obtain st' r found where d: "dijkstra st = Some (Inr (st', r))"
    "loop e (initialRun (grid st) s) = Some (r, found)"
    "pathLength st' = map_option (\<lambda>path. length path - 1) found"
    by (rule dijkstra_total)
  have nw: "type (cellAt (grid st) p) \<noteq> Wall" if "inBounds p" for p
    using assms(6) that by blast
  from loop_manhattan [OF assms(1,4,5) nw] d(2) obtain path where
    "found = Some path" "length path - 1 = manhattan s e"
    by auto
  with d show ?thesis
    by (auto simp: manhattan_def)
qed

theorem open_grid_path_length_witness:
  "wfGrid (grid initialState) \<and> startCell initialState = Some defaultStart \<and>
   endCell initialState = Some defaultEnd \<and> inBounds defaultStart \<and> inBounds defaultEnd \<and>
   (\<forall>p. \<not> (inBounds p \<and> type (cellAt (grid initialState) p) = Wall)) \<and>
   (\<exists>st' r. dijkstra initialState = Some (Inr (st', r)) \<and> pathLength st' = Some 30)"
proof -
  have nw: "\<forall>p. inBounds p \<longrightarrow> type (cellAt (grid initialState) p) \<noteq> Wall"
    by (simp add: type_initial)
  show ?thesis
    using open_grid_path_length [of initialState defaultStart defaultEnd]
      wf_initial inBounds_defaults nw
    by (simp add: initial_fields) (simp add: defaultStart_def defaultEnd_def)
qed

section \<open>The search on the initial grid\<close>

text \<open>
  A run that returns a path took the end node in some state at the head of the loop; the
  first iteration of a run whose start and end differ takes the start node and relaxes its
  neighbours; the last type change of a run is the one the displayed grid keeps.
\<close>

lemma loop_found_step:
  assumes "loop e r0 = Some (r, Some path)"
  obtains rf where "runStates e r0 rf" "unvisitedNodes rf \<noteq> []" "step e rf = Found r path"
proof -
  from loop_cases [of e r0] obtain rf where rf: "runStates e r0 rf"
    and res: "if unvisitedNodes rf = [] then loop e r0 = Some (rf, None)
      else
        (case step e rf of
           Continue r' \<Rightarrow> False
         | Break r' \<Rightarrow> loop e r0 = Some (r', None)
         | Found r' path \<Rightarrow> loop e r0 = Some (r', Some path)
         | Hang \<Rightarrow> loop e r0 = None)"
    by blast
  from res assms have ne: "unvisitedNodes rf \<noteq> []"
    by (auto split: if_splits)
  with res assms have "step e rf = Found r path"
    by (cases "step e rf") simp_all
  with rf ne show ?thesis
    by (rule that)
qed

lemma first_step_continues:
  assumes wf: "wfGrid g" and s: "inBounds s" and nw: "type (cellAt g s) \<noteq> Wall"
    and se: "s \<noteq> e"
  obtains r1 where "step e (initialRun g s) = Continue r1"
    "unvisitedNodes (initialRun g s) \<noteq> []"
proof -
  let ?r = "initialRun g s"
  have inv: "runInv ?r"
    using wf by (rule runInv_initialRun)
  have t: "treeInv s (currentGrid ?r)"
    using wf s by (rule treeInv_initialRun)
  have mem: "s \<in> set (unvisitedNodes ?r)"
    using wf s nw by (rule initial_unvisited)
  then have ne: "unvisitedNodes ?r \<noteq> []"
    by auto
  have d: "distance (cellAt (currentGrid ?r) p) = (if p = s then 0 else \<infinity>)" if "inBounds p" for p
    using wf that by (rule initialRun_distance)
  show ?thesis
  proof (cases "step e ?r")
    case (Continue r1)
    then show ?thesis
      using ne by (rule that)
  next
    case (Break r')
    from step_Break [OF inv ne Break] mem d [OF s] show ?thesis
      by auto
  next
    case Hang
    with no_Hang [OF inv t s ne, of e] show ?thesis
      by simp
  next
    case (Found r' path)
    have f: "founds e ?r r' path"
      using inv ne Found by (rule step_Found)
    from foundsD(2,3) [OF f] d [of e] se show ?thesis
      by auto
  qed
qed

lemma open_grid_run:
  assumes wf: "wfGrid g" and s: "inBounds s" and e: "inBounds e"
    and nw: "\<And>p. inBounds p \<Longrightarrow> type (cellAt g p) \<noteq> Wall"
  obtains rf r path where "loop e (initialRun g s) = Some (r, Some path)"
    "runStates e (initialRun g s) rf" "unvisitedNodes rf \<noteq> []" "step e rf = Found r path"
    "founds e rf r path" "runInv rf" "length path = Suc (manhattan s e)"
proof -
  from loop_manhattan [OF wf s e nw] obtain r path where
    l: "loop e (initialRun g s) = Some (r, Some path)" and len: "length path - 1 = manhattan s e"
    by blast
  from l obtain rf where rf: "runStates e (initialRun g s) rf" "unvisitedNodes rf \<noteq> []"
    "step e rf = Found r path"
    by (rule loop_found_step)
  have inv: "runInv rf"
    using rf(1) runInv_initialRun [OF wf] by (rule runStates_runInv)
  have f: "founds e rf r path"
    using inv rf(2,3) by (rule step_Found)
  have t: "treeInv s (currentGrid rf)"
    using rf(1) runInv_initialRun [OF wf] treeInv_initialRun [OF wf s] s by (rule runStates_treeInv)
  have "path \<noteq> []"
    using inv t s f by (rule founds_path(5))
  with len have "length path = Suc (manhattan s e)"
    by (cases path) simp_all
  with l rf f inv show ?thesis
    by (rule that)
qed

lemma render_last:
  assumes "wfGrid g" "\<forall>a \<in> set evs. inBounds (eventPos a)" "inBounds (eventPos ev)"
    "render g (evs @ [ev]) = Inr view"
  shows "type (cellAt view (eventPos ev)) = eventType ev"
  using assms
proof (induction evs arbitrary: g)
  case Nil
  then show ?case
    by (auto simp: inGrid_wf wf_setTypes split: if_splits)
next
  case (Cons a evs)
  have wf: "wfGrid (setType g (eventPos a) (eventType a))"
    using Cons.prems(1) by (rule wfGrid_setType)
  have "render (setType g (eventPos a) (eventType a)) (evs @ [ev]) = Inr view"
    using Cons.prems by (simp add: inGrid_wf split: if_splits)
  with wf Cons.prems(2,3) show ?case
    by (intro Cons.IH) simp_all
qed

lemma manhattan_defaults: "manhattan defaultStart defaultEnd = 30"
  by (simp add: manhattan_def defaultStart_def defaultEnd_def)

lemma no_walls_initial: "inBounds p \<Longrightarrow> type (cellAt (grid initialState) p) \<noteq> Wall"
  by (simp add: type_initial)

lemma afterRun_facts:
  obtains r where "dijkstra initialState = Some (Inr (afterRun, r))"
    "reachableState afterRun" "wfGrid (grid afterRun)" "\<not> isRunning afterRun"
    "drawMode afterRun = WallMode" "inBounds lastDrawn"
    "type (cellAt (grid afterRun) lastDrawn) = Path"
proof -
  let ?g = "grid initialState"
  let ?r0 = "initialRun ?g defaultStart"
  from wf_initial initial_fields(3,4) inBounds_defaults(1)
  obtain st' r found where d: "dijkstra initialState = Some (Inr (st', r))"
    "loop defaultEnd ?r0 = Some (r, found)"
    "wfGrid (grid st')" "\<not> isRunning st'"
    "render (resetView ?g defaultStart) (events r) = Inr (grid st')"
    "drawMode st' = drawMode initialState"
    by (rule dijkstra_total)
  have ar: "afterRun = st'" and ld: "lastDrawn = eventPos (last (events r))"
    by (simp_all add: afterRun_def lastDrawn_def d(1))
  from wf_initial inBounds_defaults no_walls_initial
  obtain rf r' path where o: "loop defaultEnd ?r0 = Some (r', Some path)"
    "founds defaultEnd rf r' path" "runInv rf" "length path = Suc (manhattan defaultStart defaultEnd)"
    by (rule open_grid_run)
  from o(1) d(2) have same: "r' = r"
    by simp
  note f = foundsD [OF o(2) [unfolded same]]
  define inner where "inner = butlast (tl path)"
  have "length inner = 29"
    using o(4) by (simp add: inner_def manhattan_defaults)
  then have ne: "inner \<noteq> []"
    by auto
  have evs: "events r \<noteq> []"
    "last (events r) = ShowPath (row (cellAt (markVisited (currentGrid rf) defaultEnd) (last inner)),
        col (cellAt (markVisited (currentGrid rf) defaultEnd) (last inner)))"
    using ne unfolding f(9) inner_def [symmetric] by (simp_all add: last_map)
  have all: "\<forall>ev \<in> set (events r). inBounds (eventPos ev)"
    using runInv_initialRun [OF wf_initial] treeInv_initialRun [OF wf_initial inBounds_defaults(1)]
      inBounds_defaults(1) d(2)
    by (rule loop_events)
  then have inb: "inBounds (eventPos (last (events r)))"
    using evs(1) by simp
  have split: "events r = butlast (events r) @ [last (events r)]"
    using evs(1) by simp
  have "type (cellAt (grid st') (eventPos (last (events r)))) = eventType (last (events r))"
  proof (rule render_last [where g = "resetView ?g defaultStart" and evs = "butlast (events r)"])
    show "wfGrid (resetView ?g defaultStart)"
      using wf_initial by (rule wfGrid_resetView)
    show "\<forall>a \<in> set (butlast (events r)). inBounds (eventPos a)"
      using all by (auto dest: in_set_butlastD)
    show "inBounds (eventPos (last (events r)))"
      by (fact inb)
    show "render (resetView ?g defaultStart) (butlast (events r) @ [last (events r)]) = Inr (grid st')"
      using d(5) split by simp
  qed
  then have ty: "type (cellAt (grid afterRun) lastDrawn) = Path"
    by (simp add: ar ld evs(2))
  have "reachableState afterRun"
    unfolding ar using reachableState.initial d(1) by (rule reachableState.run)
  with d ty inb show ?thesis
    by (intro that [of r]) (simp_all add: ar ld initial_fields)
qed

lemma first_step_relaxes:
  assumes wf: "wfGrid g" and s: "inBounds s" and nw: "type (cellAt g s) \<noteq> Wall"
    and se: "s \<noteq> e"
    and q: "inBounds q" "\<bar>fst q - fst s\<bar> + \<bar>snd q - snd s\<bar> = 1" "type (cellAt g q) \<noteq> Wall"
  obtains r1 where "step e (initialRun g s) = Continue r1"
    "runStates e (initialRun g s) r1"
    "distance (cellAt (currentGrid r1) q) = 1" "previous (cellAt (currentGrid r1) q) = Some s"
    "isVisited (cellAt (currentGrid r1) s)"
proof -
  let ?r = "initialRun g s"
  from wf s nw se obtain r1 where r1: "step e ?r = Continue r1" "unvisitedNodes ?r \<noteq> []"
    by (rule first_step_continues)
  have inv: "runInv ?r"
    using wf by (rule runInv_initialRun)
  have wf0: "wfGrid (currentGrid ?r)"
    using inv by (rule runInv_wf)
  from step_Continue [OF inv r1(2,1)] obtain cur where c: "continues e ?r cur r1" ..
  have d: "distance (cellAt (currentGrid ?r) p) = (if p = s then 0 else \<infinity>)" if "inBounds p" for p
    using wf that by (rule initialRun_distance)
  have cur: "cur = s"
    using continuesD(2,4) [OF c] d [of cur] by (auto split: if_splits)
  have qs: "q \<noteq> s"
    using q(2) by auto
  have cs: "cellAt (currentGrid ?r) s = searchCell s (cellAt g s)"
    "cellAt (currentGrid ?r) q = searchCell s (cellAt g q)"
    using wf s q(1) by (simp_all add: initialRun_cellAt)
  have nb: "q \<in> set (getNeighbors (cellAt (currentGrid ?r) s))"
    using q(1,2) fields_wf [OF wf0 s] by (simp add: nbrs)
  have rel: "relaxed (currentGrid ?r) s q"
    using q(3) qs d [OF s] d [OF q(1)] fields_wf [OF wf q(1)] fields_wf [OF wf s]
    by (auto simp: relaxed_def cs searchCell_def prod_eq_iff one_enat_def zero_enat_def)
  have "cellAt (currentGrid r1) q = nextCell (currentGrid ?r) s q"
    "cellAt (currentGrid r1) s = nextCell (currentGrid ?r) s s"
    using continuesD(9) [OF c] q(1) s unfolding cur by blast+
  then have "distance (cellAt (currentGrid r1) q) = 1" "previous (cellAt (currentGrid r1) q) = Some s"
    "isVisited (cellAt (currentGrid r1) s)"
    using qs nb rel d [OF s] by (simp_all add: nextCell_def)
  moreover have "runStates e ?r r1"
    using runStates.first r1(2,1) by (rule runStates.later)
  ultimately show ?thesis
    using r1(1) by (intro that [of r1])
qed

lemma inBounds_right: "inBounds (12, 11)"
  by (simp add: inBounds_def GRID_ROWS_def GRID_COLS_def)

lemma other_types_untouched:
  assumes "\<not> isRunning st" "drawMode st = WallMode" "inGrid (grid st) (r, c)"
    "type (cellAt (grid st) (r, c)) \<noteq> Empty" "type (cellAt (grid st) (r, c)) \<noteq> Wall"
  shows "handleCellClick st r c = Inr st"
  using assms by (simp add: wall_click)

text \<open>
  C6 as stated fails for a cell that a run has drawn: after a run in the initial state, the
  last cell drawn is an empty cell shown as part of the path, and a click on it in wall mode
  leaves it as it is.
\<close>

theorem drawn_cell_not_toggled:
  "reachableState afterRun \<and> \<not> isRunning afterRun \<and> drawMode afterRun = WallMode \<and>
   inGrid (grid afterRun) lastDrawn \<and> type (cellAt (grid afterRun) lastDrawn) = Path \<and>
   handleCellClick afterRun (fst lastDrawn) (snd lastDrawn) = Inr afterRun"
proof -
  obtain r where a: "reachableState afterRun" "wfGrid (grid afterRun)" "\<not> isRunning afterRun"
    "drawMode afterRun = WallMode" "inBounds lastDrawn"
    "type (cellAt (grid afterRun) lastDrawn) = Path"
    by (rule afterRun_facts)
  have g: "inGrid (grid afterRun) (fst lastDrawn, snd lastDrawn)"
    using a(2,5) by (simp add: inGrid_wf)
  have "handleCellClick afterRun (fst lastDrawn) (snd lastDrawn) = Inr afterRun"
    using a(3,4) g by (rule other_types_untouched) (simp_all add: a(6))
  with a g show ?thesis
    by simp
qed

theorem wall_mode_toggles_witness:
  "\<not> isRunning initialState \<and> drawMode initialState = WallMode \<and>
   inGrid (grid initialState) (0, 0) \<and> type (cellAt (grid initialState) (0, 0)) = Empty \<and>
   (\<exists>st'. handleCellClick initialState 0 0 = Inr st' \<and> type (cellAt (grid st') (0, 0)) = Wall \<and>
      cellAt (grid st') (12, 10) = cellAt (grid initialState) (12, 10)) \<and>
   inGrid (grid initialState) (12, 10) \<and> type (cellAt (grid initialState) (12, 10)) = Start \<and>
   handleCellClick initialState 12 10 = Inr initialState \<and>
   \<not> isRunning walled \<and> drawMode walled = WallMode \<and>
   inGrid (grid walled) (0, 0) \<and> type (cellAt (grid walled) (0, 0)) = Wall \<and>
   (\<exists>st'. handleCellClick walled 0 0 = Inr st' \<and> type (cellAt (grid st') (0, 0)) = Empty) \<and>
   \<not> isRunning afterRun \<and> drawMode afterRun = WallMode \<and>
   inGrid (grid afterRun) (fst lastDrawn, snd lastDrawn) \<and>
   type (cellAt (grid afterRun) (fst lastDrawn, snd lastDrawn)) = Path \<and>
   handleCellClick afterRun (fst lastDrawn) (snd lastDrawn) = Inr afterRun"
proof -
  have a: "inGrid (grid initialState) (0, 0)" "inGrid (grid initialState) (12, 10)"
    using inBounds_origin inBounds_defaults
    by (simp_all add: inGrid_wf wf_initial defaultStart_def)
  have b: "type (cellAt (grid initialState) (0, 0)) = Empty"
    "type (cellAt (grid initialState) (12, 10)) = Start"
    using inBounds_origin inBounds_defaults
    by (simp_all add: type_initial defaultStart_def defaultEnd_def)
  have c: "\<not> isRunning walled" "drawMode walled = WallMode" "inGrid (grid walled) (0, 0)"
    "type (cellAt (grid walled) (0, 0)) = Wall"
    using a by (simp_all add: walled_def initial_fields cellAt_setType)
  obtain r where d: "wfGrid (grid afterRun)" "\<not> isRunning afterRun"
    "drawMode afterRun = WallMode" "inBounds lastDrawn"
    "type (cellAt (grid afterRun) lastDrawn) = Path"
    by (rule afterRun_facts)
  have e: "inGrid (grid afterRun) (fst lastDrawn, snd lastDrawn)"
    using d(1,4) by (simp add: inGrid_wf)
  have first: "\<exists>st'. handleCellClick initialState 0 0 = Inr st' \<and>
      type (cellAt (grid st') (0, 0)) = Wall \<and>
      cellAt (grid st') (12, 10) = cellAt (grid initialState) (12, 10)"
    using wall_mode_toggles [of initialState 0 0] a b by (auto simp: initial_fields)
  have second: "handleCellClick initialState 12 10 = Inr initialState"
    using wall_mode_toggles [of initialState 12 10] a b by (auto simp: initial_fields)
  have third: "\<exists>st'. handleCellClick walled 0 0 = Inr st' \<and> type (cellAt (grid st') (0, 0)) = Empty"
    using wall_mode_toggles [of walled 0 0] c by auto
  have fourth: "handleCellClick afterRun (fst lastDrawn) (snd lastDrawn) = Inr afterRun"
    using wall_mode_toggles [of afterRun "fst lastDrawn" "snd lastDrawn"] d e by auto
  show ?thesis
    using first second third fourth a b c d e by (simp add: initial_fields)
qed

theorem start_stays_root_witness:
  "wfGrid (grid initialState) \<and> inBounds defaultStart \<and>
   (\<exists>r1. step defaultEnd (initialRun (grid initialState) defaultStart) = Continue r1 \<and>
      runStates defaultEnd (initialRun (grid initialState) defaultStart) r1 \<and>
      distance (cellAt (currentGrid r1) (12, 11)) = 1 \<and>
      previous (cellAt (currentGrid r1) (12, 11)) = Some defaultStart \<and>
      isVisited (cellAt (currentGrid r1) defaultStart) \<and>
      distance (cellAt (currentGrid r1) defaultStart) = 0 \<and>
      previous (cellAt (currentGrid r1) defaultStart) = None \<and>
      (\<exists>res. loop defaultEnd r1 = Some res)) \<and>
   (\<exists>rf r' path. runStates defaultEnd (initialRun (grid initialState) defaultStart) rf \<and>
      unvisitedNodes rf \<noteq> [] \<and> step defaultEnd rf = Found r' path \<and>
      length path = 31 \<and> hd path = defaultStart \<and> last path = defaultEnd \<and>
      distance (cellAt (currentGrid rf) defaultStart) = 0 \<and>
      previous (cellAt (currentGrid rf) defaultStart) = None \<and>
      distance (cellAt (currentGrid r') defaultStart) = 0 \<and>
      previous (cellAt (currentGrid r') defaultStart) = None)"
proof -
  let ?r0 = "initialRun (grid initialState) defaultStart"
  have se: "defaultStart \<noteq> defaultEnd"
    by (simp add: defaultStart_def defaultEnd_def)
  have ty: "type (cellAt (grid initialState) defaultStart) \<noteq> Wall"
    "type (cellAt (grid initialState) (12, 11)) \<noteq> Wall"
    using inBounds_defaults(1) inBounds_right by (simp_all add: type_initial)
  have adj: "\<bar>fst (12::int, 11::int) - fst defaultStart\<bar> +
      \<bar>snd (12::int, 11::int) - snd defaultStart\<bar> = 1"
    by (simp add: defaultStart_def)
  obtain r1 where r1: "step defaultEnd ?r0 = Continue r1" "runStates defaultEnd ?r0 r1"
    "distance (cellAt (currentGrid r1) (12, 11)) = 1"
    "previous (cellAt (currentGrid r1) (12, 11)) = Some defaultStart"
    "isVisited (cellAt (currentGrid r1) defaultStart)"
    by (rule first_step_relaxes [OF wf_initial inBounds_defaults(1) ty(1) se inBounds_right adj ty(2)])
  from wf_initial inBounds_defaults no_walls_initial
  obtain rf r' path where rf: "runStates defaultEnd ?r0 rf" "unvisitedNodes rf \<noteq> []"
    "step defaultEnd rf = Found r' path" "length path = Suc (manhattan defaultStart defaultEnd)"
    by (rule open_grid_run)
  show ?thesis
    using start_stays_root [OF wf_initial inBounds_defaults(1) r1(2)]
      start_stays_root [OF wf_initial inBounds_defaults(1) rf(1)]
      wf_initial inBounds_defaults(1) r1 rf
    by (auto simp: manhattan_defaults)
qed

end
